theory Spec2Isabelle
  imports Complex_Main "HOL-Library.Word" "HOL-Library.Log_Nat"
begin

section \<open>JavaScript numbers\<close>

text \<open>
  A JavaScript number is modelled as a real or one of the three non-finite values
  of IEEE arithmetic. The operations below give the exact finite result; the code
  that depends on rounding passes each result through \<open>js_dbl\<close> of the next section.
  The sign of zero is not modelled. Division by zero does not raise in JavaScript:
  it yields an infinity or NaN, and that is what \<open>js_div\<close> returns.
\<close>

datatype jsnum = Num real | PInf | NInf | NaN

fun js_add :: "jsnum \<Rightarrow> jsnum \<Rightarrow> jsnum" where
  "js_add (Num a) (Num b) = Num (a + b)"
| "js_add (Num a) PInf = PInf"
| "js_add (Num a) NInf = NInf"
| "js_add PInf (Num b) = PInf"
| "js_add NInf (Num b) = NInf"
| "js_add PInf PInf = PInf"
| "js_add NInf NInf = NInf"
| "js_add _ _ = NaN"

fun js_neg :: "jsnum \<Rightarrow> jsnum" where
  "js_neg (Num a) = Num (- a)"
| "js_neg PInf = NInf"
| "js_neg NInf = PInf"
| "js_neg NaN = NaN"

definition js_sub :: "jsnum \<Rightarrow> jsnum \<Rightarrow> jsnum" where
  "js_sub a b = js_add a (js_neg b)"

fun js_mul :: "jsnum \<Rightarrow> jsnum \<Rightarrow> jsnum" where
  "js_mul (Num a) (Num b) = Num (a * b)"
| "js_mul (Num a) PInf = (if a = 0 then NaN else if 0 < a then PInf else NInf)"
| "js_mul (Num a) NInf = (if a = 0 then NaN else if 0 < a then NInf else PInf)"
| "js_mul PInf (Num b) = (if b = 0 then NaN else if 0 < b then PInf else NInf)"
| "js_mul NInf (Num b) = (if b = 0 then NaN else if 0 < b then NInf else PInf)"
| "js_mul PInf PInf = PInf"
| "js_mul PInf NInf = NInf"
| "js_mul NInf PInf = NInf"
| "js_mul NInf NInf = PInf"
| "js_mul _ _ = NaN"

fun js_div :: "jsnum \<Rightarrow> jsnum \<Rightarrow> jsnum" where
  "js_div (Num a) (Num b) =
     (if b = 0 then (if a = 0 then NaN else if 0 < a then PInf else NInf)
      else Num (a / b))"
| "js_div (Num a) PInf = Num 0"
| "js_div (Num a) NInf = Num 0"
| "js_div PInf (Num b) = (if 0 \<le> b then PInf else NInf)"
| "js_div NInf (Num b) = (if 0 \<le> b then NInf else PInf)"
| "js_div _ _ = NaN"

text \<open>\<open>Math.min\<close> and \<open>Math.max\<close> of two arguments: NaN if either is NaN.\<close>

fun js_min :: "jsnum \<Rightarrow> jsnum \<Rightarrow> jsnum" where
  "js_min NaN _ = NaN"
| "js_min _ NaN = NaN"
| "js_min NInf _ = NInf"
| "js_min _ NInf = NInf"
| "js_min PInf b = b"
| "js_min a PInf = a"
| "js_min (Num a) (Num b) = Num (min a b)"

fun js_max :: "jsnum \<Rightarrow> jsnum \<Rightarrow> jsnum" where
  "js_max NaN _ = NaN"
| "js_max _ NaN = NaN"
| "js_max PInf _ = PInf"
| "js_max _ PInf = PInf"
| "js_max NInf b = b"
| "js_max a NInf = a"
| "js_max (Num a) (Num b) = Num (max a b)"

fun js_finite :: "jsnum \<Rightarrow> bool" where
  "js_finite (Num a) = True"
| "js_finite _ = False"

fun js_val :: "jsnum \<Rightarrow> real" where
  "js_val (Num a) = a"
| "js_val _ = 0"

section \<open>Doubles\<close>

text \<open>
  Where the rounding of JavaScript's numbers matters, a finite result is rounded
  to the nearest binary64 value, a tie going to the even significand: the positive
  \<open>x\<close> with \<open>2 ^ e \<le> x < 2 ^ (e + 1)\<close> is rounded to a multiple of \<open>2 ^ (e - 52)\<close>.
  The exponent is not limited: with 32-bit canvas dimensions no value computed by
  \<open>prepare\<close> leaves the range of the normal doubles.
\<close>

definition pow2 :: "int \<Rightarrow> real" where
  "pow2 e = (if 0 \<le> e then 2 ^ nat e else 1 / 2 ^ nat (- e))"

definition rne :: "real \<Rightarrow> int" where
  "rne q =
     (let n = \<lfloor>q\<rfloor>;
          r = q - of_int n
      in if r < 1 / 2 then n
         else if 1 / 2 < r then n + 1
         else if even n then n else n + 1)"

definition expo :: "real \<Rightarrow> int" where
  "expo x = (if 1 \<le> x then bitlen \<lfloor>x\<rfloor> - 1 else - bitlen (\<lceil>1 / x\<rceil> - 1))"

definition dbl_pos :: "real \<Rightarrow> real" where
  "dbl_pos x = (let u = pow2 (expo x - 52) in of_int (rne (x / u)) * u)"

definition dbl :: "real \<Rightarrow> real" where
  "dbl x = (if x = 0 then 0 else if 0 < x then dbl_pos x else - dbl_pos (- x))"

fun js_dbl :: "jsnum \<Rightarrow> jsnum" where
  "js_dbl (Num a) = Num (dbl a)"
| "js_dbl a = a"

section \<open>preprocessor.js\<close>

text \<open>
  A canvas is its width and height (\<open>unsigned long\<close> attributes) and the RGBA
  bytes that \<open>getImageData\<close> reads (row-major, four bytes per pixel).
  \<open>getImageData\<close> raises IndexSizeError on a canvas with a zero dimension.
\<close>

datatype dom_error = IndexSizeError

record canvas =
  width :: "32 word"
  height :: "32 word"
  data :: "8 word list"

text \<open>The image data holds four bytes for each of the \<open>width * height\<close> pixels.\<close>

definition wf_canvas :: "canvas \<Rightarrow> bool" where
  "wf_canvas c \<longleftrightarrow> length (data c) = 4 * (unat (width c) * unat (height c))"

definition getImageData :: "canvas \<Rightarrow> dom_error + 8 word list" where
  "getImageData c = (if width c = 0 \<or> height c = 0 then Inl IndexSizeError else Inr (data c))"

text \<open>
  \<open>pix[i] > 20\<close>: a read past the end of the array gives \<open>undefined\<close>, and
  \<open>undefined > 20\<close> is false.
\<close>

definition above20 :: "8 word list \<Rightarrow> nat \<Rightarrow> bool" where
  "above20 pix i \<longleftrightarrow> i < length pix \<and> 20 < pix ! i"

record bbox =
  x0 :: nat
  y0 :: nat
  x1 :: nat
  y1 :: nat
  found :: bool

definition scan_pixel :: "8 word list \<Rightarrow> nat \<Rightarrow> nat \<Rightarrow> bbox \<Rightarrow> nat \<Rightarrow> bbox" where
  "scan_pixel pix W y b x =
     (if above20 pix ((y * W + x) * 4)
      then \<lparr>x0 = min (x0 b) x, y0 = min (y0 b) y,
            x1 = max (x1 b) x, y1 = max (y1 b) y, found = True\<rparr>
      else b)"

definition scan_row :: "8 word list \<Rightarrow> nat \<Rightarrow> bbox \<Rightarrow> nat \<Rightarrow> bbox" where
  "scan_row pix W b y = foldl (scan_pixel pix W y) b [0..<W]"

definition bounding_box :: "8 word list \<Rightarrow> nat \<Rightarrow> nat \<Rightarrow> bbox" where
  "bounding_box pix W H =
     foldl (scan_row pix W) \<lparr>x0 = W, y0 = H, x1 = 0, y1 = 0, found = False\<rparr> [0..<H]"

text \<open>
  The crop rectangle and the destination rectangle of \<open>prepare\<close>. The bounding-box
  coordinates are integers below \<open>2 ^ 32\<close>, so \<open>bw\<close> and \<open>bh\<close>, differences of pixel
  indices, are exact; every other result is rounded to a double, and \<open>0.22\<close> is the
  double nearest to 22/100.
\<close>

record crop =
  sx :: real
  sy :: real
  sw :: real
  sh :: real

definition crop_of :: "nat \<Rightarrow> nat \<Rightarrow> bbox \<Rightarrow> crop" where
  "crop_of W H b =
     (let bw = real_of_int (int (x1 b) - int (x0 b));
          bh = real_of_int (int (y1 b) - int (y0 b));
          pad = dbl (max bw bh * dbl (22 / 100));
          sx' = max 0 (dbl (real (x0 b) - pad));
          sy' = max 0 (dbl (real (y0 b) - pad))
      in \<lparr>sx = sx', sy = sy',
          sw = min (dbl (real W - sx')) (dbl (bw + dbl (pad * 2))),
          sh = min (dbl (real H - sy')) (dbl (bh + dbl (pad * 2)))\<rparr>)"

definition scale_of :: "crop \<Rightarrow> jsnum" where
  "scale_of c =
     js_min (js_dbl (js_div (Num 20) (Num (sw c)))) (js_dbl (js_div (Num 20) (Num (sh c))))"

record dest =
  dx :: jsnum
  dy :: jsnum
  dw :: jsnum
  dh :: jsnum

definition dest_of :: "crop \<Rightarrow> dest" where
  "dest_of c =
     (let sc = scale_of c;
          dw' = js_dbl (js_mul (Num (sw c)) sc);
          dh' = js_dbl (js_mul (Num (sh c)) sc)
      in \<lparr>dx = js_dbl (js_div (js_dbl (js_sub (Num 28) dw')) (Num 2)),
          dy = js_dbl (js_div (js_dbl (js_sub (Num 28) dh')) (Num 2)),
          dw = dw', dh = dh'\<rparr>)"

text \<open>
  The 28 by 28 output canvas is black, with at most one \<open>drawImage\<close> call on it. The
  resampling itself is the browser's; the model keeps the call. As the canvas
  standard has it, \<open>drawImage\<close> paints nothing when an argument is not finite or when
  the source rectangle has a zero width or height.
\<close>

record blit =
  src :: crop
  dst_x :: real
  dst_y :: real
  dst_w :: real
  dst_h :: real

record canvas28 =
  out_width :: nat
  out_height :: nat
  painted :: "blit option"

definition blank28 :: canvas28 where
  "blank28 = \<lparr>out_width = 28, out_height = 28, painted = None\<rparr>"

definition drawImage :: "canvas28 \<Rightarrow> crop \<Rightarrow> dest \<Rightarrow> canvas28" where
  "drawImage out c d =
     (if js_finite (dx d) \<and> js_finite (dy d) \<and> js_finite (dw d) \<and> js_finite (dh d)
         \<and> sw c \<noteq> 0 \<and> sh c \<noteq> 0
      then out\<lparr>painted := Some \<lparr>src = c, dst_x = js_val (dx d), dst_y = js_val (dy d),
                                 dst_w = js_val (dw d), dst_h = js_val (dh d)\<rparr>\<rparr>
      else out)"

definition prepare :: "canvas \<Rightarrow> dom_error + canvas28" where
  "prepare c =
     (case getImageData c of
        Inl e \<Rightarrow> Inl e
      | Inr pix \<Rightarrow>
          (let b = bounding_box pix (unat (width c)) (unat (height c));
               out = blank28
           in if \<not> found b then Inr out
              else (let cr = crop_of (unat (width c)) (unat (height c)) b
                    in Inr (drawImage out cr (dest_of cr)))))"

function isEmpty_loop :: "8 word list \<Rightarrow> nat \<Rightarrow> bool" where
  "isEmpty_loop d i =
     (if i < length d then (if above20 d i then False else isEmpty_loop d (i + 4)) else True)"
  by pat_completeness auto
termination
  by (relation "measure (\<lambda>(d, i). length d - i)") auto

declare isEmpty_loop.simps [simp del]

definition isEmpty :: "canvas \<Rightarrow> dom_error + bool" where
  "isEmpty c = (case getImageData c of Inl e \<Rightarrow> Inl e | Inr d \<Rightarrow> Inr (isEmpty_loop d 0))"

text \<open>
  Which output pixels a \<open>drawImage\<close> call can touch: pixel \<open>(i, j)\<close> covers the unit
  square at \<open>(i, j)\<close>, and the call paints inside its destination rectangle only.
\<close>

definition may_paint :: "blit \<Rightarrow> nat \<Rightarrow> nat \<Rightarrow> bool" where
  "may_paint b i j \<longleftrightarrow>
     dst_x b < real i + 1 \<and> real i < dst_x b + dst_w b \<and>
     dst_y b < real j + 1 \<and> real j < dst_y b + dst_h b"

text \<open>Vocabulary for the statements about the scan: the red channel of pixel
  \<open>(x, y)\<close> is above the threshold; the running box stays inside the bitmap; the box
  contains a pixel.\<close>

definition ink_at :: "canvas \<Rightarrow> nat \<Rightarrow> nat \<Rightarrow> bool" where
  "ink_at c x y \<longleftrightarrow> above20 (data c) ((y * unat (width c) + x) * 4)"

definition box_ok :: "nat \<Rightarrow> nat \<Rightarrow> bbox \<Rightarrow> bool" where
  "box_ok W H b \<longleftrightarrow> x1 b < W \<and> y1 b < H \<and> (found b \<longrightarrow> x0 b \<le> x1 b \<and> y0 b \<le> y1 b)"

definition covers :: "bbox \<Rightarrow> nat \<Rightarrow> nat \<Rightarrow> bool" where
  "covers b x y \<longleftrightarrow> found b \<and> x0 b \<le> x \<and> x \<le> x1 b \<and> y0 b \<le> y \<and> y \<le> y1 b"

text \<open>Small canvases: two dark pixels; a row of four pixels with ink at both
  ends; a two by two canvas with one ink pixel; a canvas of width 0; a column of five
  pixels with ink in rows 0 and 3.\<close>

definition dark2 :: canvas where
  "dark2 = \<lparr>width = 2, height = 1, data = [20, 255, 255, 255, 3, 200, 0, 255]\<rparr>"

definition row4 :: canvas where
  "row4 = \<lparr>width = 4, height = 1,
            data = [255, 255, 255, 255, 0, 0, 0, 255, 0, 0, 0, 255, 255, 255, 255, 255]\<rparr>"

definition dot2 :: canvas where
  "dot2 = \<lparr>width = 2, height = 2,
            data = [0, 0, 0, 255, 0, 0, 0, 255, 0, 0, 0, 255, 255, 255, 255, 255]\<rparr>"

definition zero0 :: canvas where
  "zero0 = \<lparr>width = 0, height = 3, data = []\<rparr>"

definition col5 :: canvas where
  "col5 = \<lparr>width = 1, height = 5,
            data = [255, 255, 255, 255, 0, 0, 0, 255, 0, 0, 0, 255, 255, 255, 255, 255,
                    0, 0, 0, 255]\<rparr>"

section \<open>model.js: compacting a layer's activations\<close>

text \<open>
  A tensor is its shape and the flat array that \<open>dataSync\<close> returns. An array read
  past the end gives \<open>undefined\<close>, which arithmetic turns into NaN.
\<close>

record tensor =
  shape :: "nat list"
  tdata :: "real list"

definition data_at :: "real list \<Rightarrow> nat \<Rightarrow> jsnum" where
  "data_at d i = (if i < length d then Num (d ! i) else NaN)"

definition channel_sum :: "real list \<Rightarrow> nat \<Rightarrow> nat \<Rightarrow> nat \<Rightarrow> nat \<Rightarrow> jsnum" where
  "channel_sum d H W F f =
     foldl (\<lambda>sum h. foldl (\<lambda>sum w. js_add sum (data_at d (h * W * F + w * F + f))) sum [0..<W])
       (Num 0) [0..<H]"

text \<open>The local \<open>summary\<close> of \<open>_compactActivation\<close>, before it is rescaled.\<close>

definition summary_of :: "tensor \<Rightarrow> jsnum list" where
  "summary_of t =
     (case shape t of
        [B, H, W, F] \<Rightarrow>
          map (\<lambda>f. js_div (channel_sum (tdata t) H W F f) (Num (real (H * W)))) [0..<min F 16]
      | _ \<Rightarrow> map Num (take 16 (tdata t)))"

text \<open>\<open>Math.max(...summary, 0.0001)\<close>: the maximum of no arguments is -Infinity.\<close>

definition max_with_floor :: "jsnum list \<Rightarrow> jsnum" where
  "max_with_floor summary = foldl js_max NInf (summary @ [Num (1 / 10000)])"

definition compactActivation :: "tensor \<Rightarrow> jsnum list" where
  "compactActivation t =
     (let summary = summary_of t;
          mx = max_with_floor summary
      in map (\<lambda>v. js_div v mx) summary)"

text \<open>\<open>pad16\<close> of app.js: \<open>arr[i] ?? 0\<close> for \<open>i\<close> from 0 to 15.\<close>

definition pad16 :: "jsnum list \<Rightarrow> jsnum list" where
  "pad16 arr = map (\<lambda>i. if i < length arr then arr ! i else Num 0) [0..<16]"

text \<open>
  The indices the channel loop reads are inside the data when the shape has four
  positive dimensions and the data has one entry per position.
\<close>

definition wf_tensor :: "tensor \<Rightarrow> bool" where
  "wf_tensor t \<longleftrightarrow>
     (case shape t of
        [B, H, W, F] \<Rightarrow> 0 < B \<and> 0 < H \<and> 0 < W \<and> length (tdata t) = B * H * W * F
      | _ \<Rightarrow> True)"

text \<open>Sample tensors: a 1 by 2 by 1 by 2 feature map, a flat vector below the floor
  constant, a flat vector with one dominant entry, and a flat vector of zeros.\<close>

definition fmap2 :: tensor where
  "fmap2 = \<lparr>shape = [1, 2, 1, 2], tdata = [1, 4, 3, 2]\<rparr>"

definition tiny2 :: tensor where
  "tiny2 = \<lparr>shape = [1, 2], tdata = [1 / 20000, 0]\<rparr>"

definition peak3 :: tensor where
  "peak3 = \<lparr>shape = [1, 3], tdata = [1, 4, 2]\<rparr>"

definition zeros3 :: tensor where
  "zeros3 = \<lparr>shape = [1, 3], tdata = [0, 0, 0]\<rparr>"

section \<open>networkRenderer.js: layout\<close>

record node =
  node_x :: real
  node_y :: real
  act :: real
  target :: real
  idx :: nat

record pixel =
  pix_x :: real
  pix_y :: real
  pix_w :: real
  pix_h :: real
  val :: real

definition H1 :: nat where "H1 = 16"
definition H2 :: nat where "H2 = 16"
definition OUT :: nat where "OUT = 10"
definition PIX_COLS :: nat where "PIX_COLS = 14"
definition PIX_ROWS :: nat where "PIX_ROWS = 14"
definition ANIM_DUR :: real where "ANIM_DUR = 280"

definition makeNodes :: "nat \<Rightarrow> real \<Rightarrow> real \<Rightarrow> node list" where
  "makeNodes count lx H =
     (let gap = H / (real count + 1)
      in map (\<lambda>i. \<lparr>node_x = lx, node_y = gap * (real i + 1), act = 0, target = 0, idx = i\<rparr>)
           [0..<count])"

text \<open>
  The part of the renderer that \<open>_layout\<close> writes. \<open>clientWidth\<close> and \<open>clientHeight\<close>
  are non-negative integers, and \<open>|| 260\<close>, \<open>|| 500\<close> replace a zero.
\<close>

record layout =
  lay_W :: real
  lay_H :: real
  lay_pixels :: "pixel list"
  lay_h1 :: "node list"
  lay_h2 :: "node list"
  lay_out :: "node list"

definition layout_W :: "nat \<Rightarrow> real" where
  "layout_W clientWidth = (if clientWidth = 0 then 260 else real clientWidth)"

definition layout_H :: "nat \<Rightarrow> real" where
  "layout_H clientHeight = (if clientHeight = 0 then 500 else real clientHeight)"

definition cx :: "real \<Rightarrow> nat \<Rightarrow> real" where
  "cx W i = W * (real i + 1) / 5"

definition cell_size :: "real \<Rightarrow> real \<Rightarrow> real" where
  "cell_size W H =
     min (min ((W / 5) * (85 / 100) / real PIX_COLS) (H * (75 / 100) / real PIX_ROWS)) 9"

definition layout_pixels :: "real \<Rightarrow> real \<Rightarrow> pixel list" where
  "layout_pixels W H =
     (let cellW = cell_size W H;
          cellH = cellW;
          gridW = cellW * real PIX_COLS;
          gridH = cellH * real PIX_ROWS;
          gx0 = cx W 0 - gridW / 2;
          gy0 = H / 2 - gridH / 2
      in concat (map (\<lambda>r. map (\<lambda>c.
           \<lparr>pix_x = gx0 + real c * cellW + cellW / 2,
            pix_y = gy0 + real r * cellH + cellH / 2,
            pix_w = cellW - 1, pix_h = cellH - 1, val = 0\<rparr>) [0..<PIX_COLS]) [0..<PIX_ROWS]))"

definition layout_of :: "nat \<Rightarrow> nat \<Rightarrow> layout" where
  "layout_of clientWidth clientHeight =
     (let W = layout_W clientWidth;
          H = layout_H clientHeight
      in \<lparr>lay_W = W, lay_H = H,
          lay_pixels = layout_pixels W H,
          lay_h1 = makeNodes H1 (cx W 1) H,
          lay_h2 = makeNodes H2 (cx W 2) H,
          lay_out = makeNodes OUT (cx W 3) H\<rparr>)"

section \<open>networkRenderer.js: the animation scheduler\<close>

text \<open>
  The argument of \<open>animate\<close>: each of the four arrays may be absent. An array of
  numbers read past its end gives \<open>undefined\<close>, which \<open>?? 0\<close> replaces by 0.
\<close>

record anim_data =
  inputPixels :: "real list option"
  h1Acts :: "real list option"
  h2Acts :: "real list option"
  outActs :: "real list option"

definition or_empty :: "real list option \<Rightarrow> real list" where
  "or_empty a = (case a of None \<Rightarrow> [] | Some xs \<Rightarrow> xs)"

definition jsget :: "real list \<Rightarrow> nat \<Rightarrow> real" where
  "jsget xs i = (if i < length xs then xs ! i else 0)"

text \<open>
  Every call of \<open>animate\<close> creates the variables its closures share: the target
  arrays of the three layers, the layer counter \<open>li\<close> and the callback \<open>onDone\<close>
  (a callback is known by a number). The closure \<open>step\<close> also holds the layer whose
  nodes it moves and its start time.
\<close>

record run =
  layers :: "real list list"
  li :: nat
  onDone :: "nat option"

record step_closure =
  of_run :: nat
  of_layer :: nat
  start :: real

text \<open>
  The state of the module and of the browser around it: the frame handle \<open>_raf\<close>,
  the node and pixel arrays, the runs created so far, the frame callbacks and the
  timers that are pending, the next frame handle, the number of \<open>_draw\<close> calls and the
  completion callbacks called so far.
\<close>

record renderer =
  raf :: "nat option"
  h1Nodes :: "node list"
  h2Nodes :: "node list"
  outNodes :: "node list"
  pixels :: "pixel list"
  runs :: "run list"
  frames :: "(nat \<times> step_closure) list"
  timers :: "nat list"
  next_handle :: nat
  draws :: nat
  completed :: "nat list"

definition layer_nodes :: "nat \<Rightarrow> renderer \<Rightarrow> node list" where
  "layer_nodes k s = (if k = 0 then h1Nodes s else if k = 1 then h2Nodes s else outNodes s)"

definition set_layer_nodes :: "nat \<Rightarrow> node list \<Rightarrow> renderer \<Rightarrow> renderer" where
  "set_layer_nodes k ns s =
     (if k = 0 then s\<lparr>h1Nodes := ns\<rparr> else if k = 1 then s\<lparr>h2Nodes := ns\<rparr> else s\<lparr>outNodes := ns\<rparr>)"

definition draw :: "renderer \<Rightarrow> renderer" where
  "draw s = s\<lparr>draws := Suc (draws s)\<rparr>"

text \<open>\<open>_raf = requestAnimationFrame(step)\<close> and \<open>if (_raf) cancelAnimationFrame(_raf)\<close>.
  Cancelling a handle whose callback has already run does nothing.\<close>

definition request_frame :: "step_closure \<Rightarrow> renderer \<Rightarrow> renderer" where
  "request_frame clo s =
     s\<lparr>frames := frames s @ [(next_handle s, clo)],
       raf := Some (next_handle s),
       next_handle := Suc (next_handle s)\<rparr>"

definition cancel_raf :: "renderer \<Rightarrow> renderer" where
  "cancel_raf s =
     (case raf s of
        None \<Rightarrow> s
      | Some h \<Rightarrow> s\<lparr>frames := filter (\<lambda>p. fst p \<noteq> h) (frames s)\<rparr>)"

definition assign_targets :: "node list \<Rightarrow> real list \<Rightarrow> node list" where
  "assign_targets nodes targets =
     map (\<lambda>i. (nodes ! i)\<lparr>target := min (jsget targets i) 1\<rparr>) [0..<length nodes]"

definition nextLayer :: "nat \<Rightarrow> real \<Rightarrow> renderer \<Rightarrow> renderer" where
  "nextLayer r now s =
     (if r < length (runs s)
      then (let rn = runs s ! r
            in if 3 \<le> li rn
               then (case onDone rn of
                       None \<Rightarrow> s
                     | Some cb \<Rightarrow> s\<lparr>completed := completed s @ [cb]\<rparr>)
               else (let k = li rn;
                         s1 = set_layer_nodes k (assign_targets (layer_nodes k s) (layers rn ! k)) s
                     in request_frame \<lparr>of_run = r, of_layer = k, start = now\<rparr> s1))
      else s)"

definition step :: "step_closure \<Rightarrow> real \<Rightarrow> renderer \<Rightarrow> renderer" where
  "step clo now s =
     (let t = min ((now - start clo) / ANIM_DUR) 1;
          ease = 1 - (1 - t) ^ 3;
          k = of_layer clo;
          s1 = set_layer_nodes k
                 (map (\<lambda>n. n\<lparr>act := act n + (target n - act n) * ease\<rparr>) (layer_nodes k s)) s;
          s2 = draw s1
      in if t < 1 then request_frame clo s2
         else s2\<lparr>runs := (runs s2)[of_run clo :=
                       (runs s2 ! of_run clo)\<lparr>li := Suc (li (runs s2 ! of_run clo))\<rparr>],
                 timers := timers s2 @ [of_run clo]\<rparr>)"

definition animate :: "anim_data \<Rightarrow> nat option \<Rightarrow> real \<Rightarrow> renderer \<Rightarrow> renderer" where
  "animate d cb now s =
     (let s1 = cancel_raf s;
          s2 = (case inputPixels d of
                  None \<Rightarrow> s1
                | Some px \<Rightarrow>
                    s1\<lparr>pixels := map (\<lambda>i. (pixels s1 ! i)\<lparr>val := jsget px i\<rparr>)
                                    [0..<length (pixels s1)]\<rparr>);
          s3 = s2\<lparr>runs := runs s2 @
                 [\<lparr>layers = [or_empty (h1Acts d), or_empty (h2Acts d), or_empty (outActs d)],
                   li = 0, onDone = cb\<rparr>]\<rparr>
      in nextLayer (length (runs s2)) now s3)"

definition reset :: "renderer \<Rightarrow> renderer" where
  "reset s =
     (let s1 = cancel_raf s
      in draw (s1\<lparr>h1Nodes := map (\<lambda>n. n\<lparr>act := 0, target := 0\<rparr>) (h1Nodes s1),
                  h2Nodes := map (\<lambda>n. n\<lparr>act := 0, target := 0\<rparr>) (h2Nodes s1),
                  outNodes := map (\<lambda>n. n\<lparr>act := 0, target := 0\<rparr>) (outNodes s1),
                  pixels := map (\<lambda>p. p\<lparr>val := 0\<rparr>) (pixels s1)\<rparr>))"

text \<open>
  What can happen to the renderer: a call of \<open>animate\<close> or \<open>reset\<close>, the browser
  running the frame callback of a handle, and a timer set by a run firing. The
  calls that read the clock carry the time.
\<close>

datatype event =
  Animate anim_data "nat option" real
  | Reset
  | Frame nat real
  | Timer nat real

definition fire_frame :: "nat \<Rightarrow> real \<Rightarrow> renderer \<Rightarrow> renderer" where
  "fire_frame h now s =
     (case map_of (frames s) h of
        None \<Rightarrow> s
      | Some clo \<Rightarrow> step clo now (s\<lparr>frames := filter (\<lambda>p. fst p \<noteq> h) (frames s)\<rparr>))"

definition fire_timer :: "nat \<Rightarrow> real \<Rightarrow> renderer \<Rightarrow> renderer" where
  "fire_timer r now s =
     (if r \<in> set (timers s) then nextLayer r now (s\<lparr>timers := remove1 r (timers s)\<rparr>) else s)"

fun apply_event :: "renderer \<Rightarrow> event \<Rightarrow> renderer" where
  "apply_event s (Animate d cb now) = animate d cb now s"
| "apply_event s Reset = reset s"
| "apply_event s (Frame h now) = fire_frame h now s"
| "apply_event s (Timer r now) = fire_timer r now s"

definition run_events :: "renderer \<Rightarrow> event list \<Rightarrow> renderer" where
  "run_events s es = foldl apply_event s es"

text \<open>\<open>init\<close>: the layout and one \<open>_draw\<close>.\<close>

definition init_renderer :: "nat \<Rightarrow> nat \<Rightarrow> renderer" where
  "init_renderer clientWidth clientHeight =
     (let L = layout_of clientWidth clientHeight
      in \<lparr>raf = None, h1Nodes = lay_h1 L, h2Nodes = lay_h2 L, outNodes = lay_out L,
          pixels = lay_pixels L, runs = [], frames = [], timers = [],
          next_handle = 1, draws = 1, completed = []\<rparr>)"

text \<open>The runs that still have a frame callback or a timer pending.\<close>

definition pending_runs :: "renderer \<Rightarrow> nat list" where
  "pending_runs s = map (\<lambda>p. of_run (snd p)) (frames s) @ timers s"

text \<open>Two calls of \<open>animate\<close> used in the traces below.\<close>

definition data_A :: anim_data where
  "data_A = \<lparr>inputPixels = Some [1 / 2], h1Acts = Some [1], h2Acts = Some [1], outActs = Some [1]\<rparr>"

definition data_B :: anim_data where
  "data_B = \<lparr>inputPixels = None, h1Acts = None, h2Acts = None, outActs = None\<rparr>"

definition data_C :: anim_data where
  "data_C = \<lparr>inputPixels = Some [1 / 2], h1Acts = Some [3, 1 / 4], h2Acts = None, outActs = None\<rparr>"

section \<open>model.js: the training guard\<close>

text \<open>
  \<open>train\<close> is an async function: it runs until an \<open>await\<close>, and resumes when the
  awaited promise settles. A run in flight is suspended at \<open>await _loadData(...)\<close> or at
  \<open>await _model.fit(...)\<close>. The state holds the three module variables, the runs in
  flight with the callbacks they were given, and counters of what has been started:
  calls of \<open>_loadData\<close> and of \<open>_buildModel\<close>, and the runs that reached the success
  branch or the \<open>catch\<close> block.

  \<open>onDone\<close> and \<open>onError\<close> are the caller's functions, called after \<open>_training\<close> has
  been cleared. What matters of such a function here is whether it calls \<open>train\<close>
  again and whether it raises; \<open>Returns\<close> also stands for a callback that is absent.
  \<open>onDataProgress\<close> and \<open>onEpoch\<close> are called while \<open>_training\<close> is set, where a call
  of \<open>train\<close> returns at once; when they raise, the awaited promise is rejected.
\<close>

datatype phase = AwaitLoad | AwaitFit

datatype callback = Returns | Raises | CallsTrain | CallsTrainThenRaises

record callbacks =
  cb_onDone :: callback
  cb_onError :: callback

record trainer =
  model :: "nat option"
  trained :: bool
  training :: bool
  inflight :: "(nat \<times> phase \<times> callbacks) list"
  next_run :: nat
  loads :: nat
  builds :: nat
  done_runs :: "nat list"
  failed_runs :: "nat list"

text \<open>How the code between two awaits ends: where it raises, or that it gets through.\<close>

datatype load_outcome = BuildRaises | TensorsRaise | FitCalled

datatype fit_outcome = EvalRaises | Done

datatype train_event =
  Train callbacks
  | LoadOk nat load_outcome
  | LoadFail nat
  | FitOk nat fit_outcome
  | FitFail nat

definition train_init :: trainer where
  "train_init = \<lparr>model = None, trained = False, training = False, inflight = [],
                  next_run = 0, loads = 0, builds = 0, done_runs = [], failed_runs = []\<rparr>"

definition plain :: callbacks where
  "plain = \<lparr>cb_onDone = Returns, cb_onError = Returns\<rparr>"

text \<open>The call itself, up to the first await.\<close>

definition train :: "callbacks \<Rightarrow> trainer \<Rightarrow> trainer" where
  "train cbs s =
     (if training s then s
      else s\<lparr>training := True, loads := Suc (loads s),
             inflight := inflight s @ [(next_run s, AwaitLoad, cbs)],
             next_run := Suc (next_run s)\<rparr>)"

text \<open>Calling a callback: what it does to the state, and whether it raises.\<close>

fun cb_effect :: "callback \<Rightarrow> trainer \<Rightarrow> trainer" where
  "cb_effect Returns s = s"
| "cb_effect Raises s = s"
| "cb_effect CallsTrain s = train plain s"
| "cb_effect CallsTrainThenRaises s = train plain s"

fun cb_raises :: "callback \<Rightarrow> bool" where
  "cb_raises Returns = False"
| "cb_raises Raises = True"
| "cb_raises CallsTrain = False"
| "cb_raises CallsTrainThenRaises = True"

definition leave :: "nat \<Rightarrow> trainer \<Rightarrow> trainer" where
  "leave r s = s\<lparr>inflight := filter (\<lambda>p. fst p \<noteq> r) (inflight s)\<rparr>"

text \<open>The \<open>catch\<close> block: \<open>_training = false\<close>, then \<open>onError\<close>; the run ends with it.\<close>

definition catch_block :: "nat \<Rightarrow> callbacks \<Rightarrow> trainer \<Rightarrow> trainer" where
  "catch_block r cbs s =
     leave r (cb_effect (cb_onError cbs)
                (s\<lparr>training := False, failed_runs := failed_runs s @ [r]\<rparr>))"

definition build_model :: "trainer \<Rightarrow> trainer" where
  "build_model s = s\<lparr>model := Some (builds s), builds := Suc (builds s)\<rparr>"

definition after_load :: "nat \<Rightarrow> load_outcome \<Rightarrow> trainer \<Rightarrow> trainer" where
  "after_load r out s =
     (case find (\<lambda>p. fst p = r) (inflight s) of
        Some (r', AwaitLoad, cbs) \<Rightarrow>
          (case out of
             BuildRaises \<Rightarrow> catch_block r cbs s
           | TensorsRaise \<Rightarrow> catch_block r cbs (build_model s)
           | FitCalled \<Rightarrow>
               (build_model s)\<lparr>inflight :=
                  map (\<lambda>p. if fst p = r then (r, AwaitFit, cbs) else p) (inflight s)\<rparr>)
      | _ \<Rightarrow> s)"

definition load_rejected :: "nat \<Rightarrow> trainer \<Rightarrow> trainer" where
  "load_rejected r s =
     (case find (\<lambda>p. fst p = r) (inflight s) of
        Some (r', AwaitLoad, cbs) \<Rightarrow> catch_block r cbs s
      | _ \<Rightarrow> s)"

text \<open>
  After the fit: the final evaluation, then \<open>_trained = true; _training = false\<close> and
  \<open>onDone\<close>, all inside the \<open>try\<close>, so that an \<open>onDone\<close> that raises is followed by the
  \<open>catch\<close> block.
\<close>

definition after_fit :: "nat \<Rightarrow> fit_outcome \<Rightarrow> trainer \<Rightarrow> trainer" where
  "after_fit r out s =
     (case find (\<lambda>p. fst p = r) (inflight s) of
        Some (r', AwaitFit, cbs) \<Rightarrow>
          (case out of
             EvalRaises \<Rightarrow> catch_block r cbs s
           | Done \<Rightarrow>
               (let s1 = s\<lparr>trained := True, training := False,
                           done_runs := done_runs s @ [r]\<rparr>;
                    s2 = cb_effect (cb_onDone cbs) s1
                in if cb_raises (cb_onDone cbs) then catch_block r cbs s2 else leave r s2))
      | _ \<Rightarrow> s)"

definition fit_rejected :: "nat \<Rightarrow> trainer \<Rightarrow> trainer" where
  "fit_rejected r s =
     (case find (\<lambda>p. fst p = r) (inflight s) of
        Some (r', AwaitFit, cbs) \<Rightarrow> catch_block r cbs s
      | _ \<Rightarrow> s)"

fun train_step :: "trainer \<Rightarrow> train_event \<Rightarrow> trainer" where
  "train_step s (Train cbs) = train cbs s"
| "train_step s (LoadOk r out) = after_load r out s"
| "train_step s (LoadFail r) = load_rejected r s"
| "train_step s (FitOk r out) = after_fit r out s"
| "train_step s (FitFail r) = fit_rejected r s"

definition train_trace :: "train_event list \<Rightarrow> trainer" where
  "train_trace es = foldl train_step train_init es"

text \<open>
  The guard's invariant, and the callbacks under which it is kept: no \<open>onDone\<close>
  that calls \<open>train\<close> and then raises.
\<close>

definition safe_cbs :: "callbacks \<Rightarrow> bool" where
  "safe_cbs cbs \<longleftrightarrow> cb_onDone cbs \<noteq> CallsTrainThenRaises"

fun safe_event :: "train_event \<Rightarrow> bool" where
  "safe_event (Train cbs) = safe_cbs cbs"
| "safe_event e = True"

definition guard_inv :: "trainer \<Rightarrow> bool" where
  "guard_inv s \<longleftrightarrow>
     length (inflight s) \<le> 1 \<and> (training s \<longleftrightarrow> inflight s \<noteq> [])
     \<and> list_all (\<lambda>p. safe_cbs (snd (snd p)) \<and> fst p < next_run s) (inflight s)"

definition reentrant :: callbacks where
  "reentrant = \<lparr>cb_onDone = CallsTrainThenRaises, cb_onError = Returns\<rparr>"
section \<open>Properties of the rounding\<close>

lemma pow2_powi: "pow2 e = 2 powi e"
  by (simp add: pow2_def power_int_def field_simps)

lemma pow2_pos [simp]: "0 < pow2 e"
  by (simp add: pow2_powi)

lemma pow2_add: "pow2 (a + b) = pow2 a * pow2 b"
  by (simp add: pow2_powi power_int_add)

lemma pow2_mono: "a \<le> b \<Longrightarrow> pow2 a \<le> pow2 b"
  by (simp add: pow2_powi power_int_increasing)

lemma pow2_strict_mono: "a < b \<Longrightarrow> pow2 a < pow2 b"
  by (simp add: pow2_powi power_int_strict_increasing)

lemma pow2_less_cancel: "pow2 a < pow2 b \<Longrightarrow> a < b"
  using pow2_mono [of b a] by (cases "a < b") auto

lemma pow2_nat: "pow2 (int n) = 2 ^ n"
  by (simp add: pow2_def)

lemma expo_bounds:
  assumes "0 < x"
  shows "pow2 (expo x) \<le> x" and "x < pow2 (expo x + 1)"
proof -
  have "pow2 (expo x) \<le> x \<and> x < pow2 (expo x + 1)"
  proof (cases "1 \<le> x")
    case True
    then have n: "0 < \<lfloor>x\<rfloor>" by simp
    from bitlen_bounds [OF n] have b: "2 ^ nat (bitlen \<lfloor>x\<rfloor> - 1) \<le> \<lfloor>x\<rfloor>" "\<lfloor>x\<rfloor> < 2 ^ nat (bitlen \<lfloor>x\<rfloor>)"
      by simp_all
    have b1: "1 \<le> bitlen \<lfloor>x\<rfloor>" using n by (simp add: bitlen_alt_def)
    have e: "expo x = bitlen \<lfloor>x\<rfloor> - 1" using True by (simp add: expo_def)
    have "pow2 (expo x) = of_int (2 ^ nat (bitlen \<lfloor>x\<rfloor> - 1))"
      using b1 by (simp add: e pow2_def)
    also have "\<dots> \<le> of_int \<lfloor>x\<rfloor>" using b(1) by (simp only: of_int_le_iff)
    also have "\<dots> \<le> x" by simp
    finally have lo: "pow2 (expo x) \<le> x" .
    have "\<lfloor>x\<rfloor> + 1 \<le> 2 ^ nat (bitlen \<lfloor>x\<rfloor>)" using b(2) by simp
    then have "real_of_int (\<lfloor>x\<rfloor> + 1) \<le> of_int (2 ^ nat (bitlen \<lfloor>x\<rfloor>))"
      by (simp only: of_int_le_iff)
    moreover have "x < real_of_int (\<lfloor>x\<rfloor> + 1)" by linarith
    moreover have "pow2 (expo x + 1) = of_int (2 ^ nat (bitlen \<lfloor>x\<rfloor>))"
      using b1 by (simp add: e pow2_def)
    ultimately have "x < pow2 (expo x + 1)" by linarith
    with lo show ?thesis ..
  next
    case False
    then have x1: "x < 1" by simp
    define m where "m = \<lceil>1 / x\<rceil> - 1"
    define k where "k = bitlen m"
    have inv: "1 < 1 / x" using assms x1 by simp
    then have "2 \<le> \<lceil>1 / x\<rceil>" by linarith
    then have m: "0 < m" by (simp add: m_def)
    from bitlen_bounds [OF m] have b: "2 ^ nat (k - 1) \<le> m" "m < 2 ^ nat k"
      by (simp_all add: k_def)
    have k1: "1 \<le> k" using m by (simp add: k_def bitlen_alt_def)
    have e: "expo x = - k" using False by (simp add: expo_def k_def m_def)
    have mlt: "real_of_int m < 1 / x" unfolding m_def by linarith
    have mge: "1 / x \<le> real_of_int m + 1" unfolding m_def by linarith
    have "real_of_int m + 1 \<le> of_int (2 ^ nat k)"
      using b(2) by (metis of_int_1 of_int_add of_int_le_iff zless_imp_add1_zle)
    with mge have "1 / x \<le> 2 ^ nat k" by simp
    then have "1 \<le> 2 ^ nat k * x" using assms by (simp add: field_simps)
    then have lo: "pow2 (expo x) \<le> x"
      using k1 by (simp add: e pow2_def field_simps)
    have "(2::real) ^ nat (k - 1) \<le> of_int m"
    proof -
      have "real_of_int (2 ^ nat (k - 1)) \<le> real_of_int m" using b(1) by (rule of_int_le_iff [THEN iffD2])
      then show ?thesis by simp
    qed
    with mlt have "2 ^ nat (k - 1) < 1 / x" by linarith
    then have "x < 1 / 2 ^ nat (k - 1)" using assms by (simp add: field_simps)
    moreover have "pow2 (expo x + 1) = 1 / 2 ^ nat (k - 1)"
      using k1 by (auto simp: e pow2_def)
    ultimately have "x < pow2 (expo x + 1)" by (simp only:)
    with lo show ?thesis ..
  qed
  then show "pow2 (expo x) \<le> x" and "x < pow2 (expo x + 1)" by simp_all
qed

lemma expo_unique:
  assumes "pow2 e \<le> x" "x < pow2 (e + 1)"
  shows "expo x = e"
proof -
  have x: "0 < x" using assms(1) pow2_pos [of e] by linarith
  from expo_bounds [OF x] assms
  have "pow2 e < pow2 (expo x + 1)" "pow2 (expo x) < pow2 (e + 1)" by linarith+
  then have "e < expo x + 1" "expo x < e + 1" by (auto dest: pow2_less_cancel)
  then show ?thesis by simp
qed

lemma rne_error: "\<bar>of_int (rne q) - q\<bar> \<le> 1 / 2"
  unfolding rne_def Let_def by (auto simp: abs_le_iff)

lemma rne_of_int [simp]: "rne (of_int k) = k"
  by (simp add: rne_def Let_def)

lemma rne_mono:
  assumes "q \<le> q'"
  shows "rne q \<le> rne q'"
proof (cases "\<lfloor>q\<rfloor> = \<lfloor>q'\<rfloor>")
  case True
  then have "q - of_int \<lfloor>q\<rfloor> \<le> q' - of_int \<lfloor>q'\<rfloor>" using assms by simp
  with True show ?thesis by (auto simp: rne_def Let_def)
next
  case False
  moreover have "\<lfloor>q\<rfloor> \<le> \<lfloor>q'\<rfloor>" using assms by (rule floor_mono)
  ultimately have "\<lfloor>q\<rfloor> + 1 \<le> \<lfloor>q'\<rfloor>" by simp
  moreover have "rne q \<le> \<lfloor>q\<rfloor> + 1" by (simp add: rne_def Let_def)
  moreover have "\<lfloor>q'\<rfloor> \<le> rne q'" by (simp add: rne_def Let_def)
  ultimately show ?thesis by linarith
qed

lemma pow2_diff52: "pow2 e = 2 ^ 52 * pow2 (e - 52)"
proof -
  have "pow2 e = pow2 (52 + (e - 52))" by simp
  also have "\<dots> = pow2 52 * pow2 (e - 52)" by (rule pow2_add)
  finally show ?thesis by (simp add: pow2_def)
qed

lemma pow2_nonzero [simp]: "pow2 e \<noteq> 0"
  using pow2_pos [of e] by linarith

lemma pow2_Suc: "pow2 (e + 1) = 2 * pow2 e"
  using pow2_add [of e 1] by (simp add: pow2_def)

lemma dbl_pos_bounds:
  assumes "0 < x"
  shows "pow2 (expo x) \<le> dbl_pos x" and "dbl_pos x \<le> pow2 (expo x + 1)"
proof -
  define u where "u = pow2 (expo x - 52)"
  have u: "0 < u" by (simp add: u_def)
  have e: "pow2 (expo x) = 2 ^ 52 * u" unfolding u_def by (rule pow2_diff52)
  from expo_bounds [OF assms] have "2 ^ 52 * u \<le> x" "x < 2 ^ 53 * u"
    by (simp_all add: e pow2_Suc)
  then have q: "2 ^ 52 \<le> x / u" "x / u \<le> 2 ^ 53" using u by (simp_all add: field_simps)
  have "rne (of_int (2 ^ 52)) \<le> rne (x / u)" using q(1) by (intro rne_mono) simp
  then have lo: "2 ^ 52 \<le> rne (x / u)" by (simp only: rne_of_int)
  have "rne (x / u) \<le> rne (of_int (2 ^ 53))" using q(2) by (intro rne_mono) simp
  then have hi: "rne (x / u) \<le> 2 ^ 53" by (simp only: rne_of_int)
  have d: "dbl_pos x = of_int (rne (x / u)) * u" by (simp add: dbl_pos_def Let_def u_def)
  have "2 ^ 52 * u \<le> of_int (rne (x / u)) * u"
  proof (rule mult_right_mono)
    have "real_of_int (2 ^ 52) \<le> of_int (rne (x / u))" using lo by (rule of_int_le_iff [THEN iffD2])
    then show "2 ^ 52 \<le> real_of_int (rne (x / u))" by simp
    show "0 \<le> u" using u by simp
  qed
  then show "pow2 (expo x) \<le> dbl_pos x" by (simp only: e d)
  have "of_int (rne (x / u)) * u \<le> 2 ^ 53 * u"
  proof (rule mult_right_mono)
    have "real_of_int (rne (x / u)) \<le> of_int (2 ^ 53)" using hi by (rule of_int_le_iff [THEN iffD2])
    then show "real_of_int (rne (x / u)) \<le> 2 ^ 53" by simp
    show "0 \<le> u" using u by simp
  qed
  then show "dbl_pos x \<le> pow2 (expo x + 1)" by (simp add: d e pow2_Suc)
qed

lemma dbl_pos_error:
  assumes "0 < x"
  shows "\<bar>dbl_pos x - x\<bar> \<le> x / 2 ^ 53"
proof -
  define u where "u = pow2 (expo x - 52)"
  have u: "0 < u" by (simp add: u_def)
  have e: "pow2 (expo x) = 2 ^ 52 * u" unfolding u_def by (rule pow2_diff52)
  have d: "dbl_pos x = of_int (rne (x / u)) * u" by (simp add: dbl_pos_def Let_def u_def)
  have "dbl_pos x - x = (of_int (rne (x / u)) - x / u) * u" using u by (simp add: d field_simps)
  then have "\<bar>dbl_pos x - x\<bar> = \<bar>of_int (rne (x / u)) - x / u\<bar> * u"
    using u by (simp add: abs_mult)
  also have "\<dots> \<le> (1 / 2) * u" using u rne_error [of "x / u"] by (intro mult_right_mono) simp_all
  also have "\<dots> = (2 ^ 52 * u) / 2 ^ 53" by simp
  also have "\<dots> \<le> x / 2 ^ 53"
    using expo_bounds(1) [OF assms] by (simp only: e divide_right_mono zero_le_numeral zero_le_power)
  finally show ?thesis .
qed

lemma dbl_pos_positive: "0 < x \<Longrightarrow> 0 < dbl_pos x"
  using dbl_pos_bounds(1) [of x] pow2_pos [of "expo x"] by linarith

lemma dbl_simps [simp]: "dbl 0 = 0" "0 < x \<Longrightarrow> dbl x = dbl_pos x" "x < 0 \<Longrightarrow> dbl x = - dbl_pos (- x)"
  by (simp_all add: dbl_def)

lemma dbl_sign: "0 < x \<Longrightarrow> 0 < dbl x" "x < 0 \<Longrightarrow> dbl x < 0" "0 \<le> x \<Longrightarrow> 0 \<le> dbl x"
  using dbl_pos_positive [of x] dbl_pos_positive [of "- x"] by (auto simp: dbl_def)

lemma dbl_error: "\<bar>dbl x - x\<bar> \<le> \<bar>x\<bar> / 2 ^ 53"
proof -
  consider "x = 0" | "0 < x" | "x < 0" by linarith
  then show ?thesis
  proof cases
    case 1 then show ?thesis by simp
  next
    case 2 then show ?thesis using dbl_pos_error [of x] by simp
  next
    case 3
    then have "\<bar>dbl_pos (- x) - (- x)\<bar> \<le> (- x) / 2 ^ 53" by (intro dbl_pos_error) simp
    moreover have "\<bar>dbl x - x\<bar> = \<bar>dbl_pos (- x) - (- x)\<bar>" using 3 by simp
    ultimately show ?thesis using 3 by simp
  qed
qed

lemma dbl_pos_mono:
  assumes "0 < x" "x \<le> y"
  shows "dbl_pos x \<le> dbl_pos y"
proof -
  have y: "0 < y" using assms by linarith
  have "pow2 (expo x) < pow2 (expo y + 1)"
    using expo_bounds(1) [OF assms(1)] expo_bounds(2) [OF y] assms(2) by linarith
  then have le: "expo x \<le> expo y" using pow2_less_cancel by fastforce
  show ?thesis
  proof (cases "expo x = expo y")
    case True
    define u where "u = pow2 (expo x - 52)"
    have u: "0 < u" by (simp add: u_def)
    have "x / u \<le> y / u" using assms(2) u by (simp add: divide_right_mono)
    then have "rne (x / u) \<le> rne (y / u)" by (rule rne_mono)
    then have "real_of_int (rne (x / u)) \<le> of_int (rne (y / u))" by simp
    then have "of_int (rne (x / u)) * u \<le> of_int (rne (y / u)) * u"
      using u by (intro mult_right_mono) simp_all
    then show ?thesis by (simp add: dbl_pos_def Let_def u_def True)
  next
    case False
    with le have "expo x + 1 \<le> expo y" by simp
    then have "pow2 (expo x + 1) \<le> pow2 (expo y)" by (rule pow2_mono)
    with dbl_pos_bounds(2) [OF assms(1)] dbl_pos_bounds(1) [OF y] show ?thesis by linarith
  qed
qed

lemma dbl_mono:
  assumes "x \<le> y"
  shows "dbl x \<le> dbl y"
proof -
  consider "0 < x" | "x \<le> 0" "0 \<le> y" | "y < 0" using assms by linarith
  then show ?thesis
  proof cases
    case 1
    then show ?thesis using assms dbl_pos_mono [of x y] by simp
  next
    case 2
    have "dbl x \<le> 0" using 2(1) dbl_sign(2) [of x] by (cases "x = 0") auto
    moreover have "0 \<le> dbl y" using 2(2) by (rule dbl_sign(3))
    ultimately show ?thesis by linarith
  next
    case 3
    then have "dbl_pos (- y) \<le> dbl_pos (- x)" using assms by (intro dbl_pos_mono) simp_all
    then show ?thesis using 3 assms by simp
  qed
qed

lemma dbl_at:
  assumes "pow2 e \<le> x" "x < pow2 (e + 1)"
  shows "dbl x = of_int (rne (x / pow2 (e - 52))) * pow2 (e - 52)"
proof -
  have x: "0 < x" using assms(1) pow2_pos [of e] by linarith
  then show ?thesis by (simp add: dbl_pos_def Let_def expo_unique [OF assms])
qed

lemma dbl_exact:
  assumes k: "0 < k" "k < 2 ^ 53"
  shows "dbl (of_int k * pow2 j) = of_int k * pow2 j"
proof -
  define x where "x = real_of_int k * pow2 j"
  have x: "0 < x" using k(1) by (simp add: x_def)
  define e where "e = expo x"
  have "real_of_int k < of_int (2 ^ 53)" using k(2) by (rule of_int_less_iff [THEN iffD2])
  then have "x < 2 ^ 53 * pow2 j" by (simp add: x_def)
  also have "\<dots> = pow2 (53 + j)" using pow2_add [of 53 j] by (simp add: pow2_def)
  finally have "pow2 e < pow2 (53 + j)" using expo_bounds(1) [OF x] unfolding e_def by linarith
  then have "e < 53 + j" by (rule pow2_less_cancel)
  then have d: "0 \<le> j - (e - 52)" by simp
  have "pow2 j = pow2 ((j - (e - 52)) + (e - 52))" by simp
  also have "\<dots> = 2 ^ nat (j - (e - 52)) * pow2 (e - 52)"
    using d by (simp only: pow2_add) (simp add: pow2_def)
  finally have pj: "pow2 j = 2 ^ nat (j - (e - 52)) * pow2 (e - 52)" .
  have "x / pow2 (e - 52) = of_int (k * 2 ^ nat (j - (e - 52)))"
    by (simp add: x_def pj)
  then have "rne (x / pow2 (e - 52)) = k * 2 ^ nat (j - (e - 52))" by (simp only: rne_of_int)
  then have "dbl_pos x = of_int (k * 2 ^ nat (j - (e - 52))) * pow2 (e - 52)"
    by (simp add: dbl_pos_def Let_def e_def)
  also have "\<dots> = x" by (simp add: x_def pj)
  finally show ?thesis using x by (simp add: x_def)
qed

lemma dbl_nat: "n < 2 ^ 53 \<Longrightarrow> dbl (real n) = real n"
proof (cases "n = 0")
  case True then show ?thesis by simp
next
  case False
  assume "n < 2 ^ 53"
  then have "int n < 2 ^ 53" by (metis of_nat_less_iff of_nat_numeral of_nat_power)
  with False dbl_exact [of "int n" 0] show ?thesis by (simp add: pow2_def)
qed

lemma c22: "dbl (22 / 100) = 7926335344172073 / 36028797018963968"
  by (subst dbl_at [where e = "-3"]) (simp_all add: pow2_def rne_def Let_def)

section \<open>Properties of the preprocessor\<close>

lemma found_scan_pixel:
  "found (scan_pixel pix W y b x) \<longleftrightarrow> found b \<or> above20 pix ((y * W + x) * 4)"
  by (simp add: scan_pixel_def)

lemma found_foldl_scan_pixel:
  "found (foldl (scan_pixel pix W y) b xs) \<longleftrightarrow>
     found b \<or> (\<exists>x \<in> set xs. above20 pix ((y * W + x) * 4))"
  by (induction xs arbitrary: b) (auto simp: found_scan_pixel)

lemma found_scan_row:
  "found (scan_row pix W b y) \<longleftrightarrow> found b \<or> (\<exists>x < W. above20 pix ((y * W + x) * 4))"
  by (auto simp: scan_row_def found_foldl_scan_pixel)

lemma found_foldl_scan_row:
  "found (foldl (scan_row pix W) b ys) \<longleftrightarrow>
     found b \<or> (\<exists>y \<in> set ys. \<exists>x < W. above20 pix ((y * W + x) * 4))"
  by (induction ys arbitrary: b) (auto simp: found_scan_row)

lemma found_bounding_box:
  "found (bounding_box pix W H) \<longleftrightarrow> (\<exists>y < H. \<exists>x < W. above20 pix ((y * W + x) * 4))"
  by (auto simp: bounding_box_def found_foldl_scan_row)

lemma isEmpty_loop_iff:
  "isEmpty_loop d i \<longleftrightarrow> (\<forall>n. \<not> above20 d (i + 4 * n))"
proof (induction d i rule: isEmpty_loop.induct)
  case (1 d i)
  show ?case
  proof (cases "i < length d")
    case False
    then show ?thesis by (subst isEmpty_loop.simps) (simp add: above20_def)
  next
    case True
    show ?thesis
    proof (cases "above20 d i")
      case True
      then have "above20 d (i + 4 * 0)" by simp
      with True \<open>i < length d\<close> show ?thesis by (metis isEmpty_loop.simps)
    next
      case False
      from "1.IH" [OF True False]
      have IH: "isEmpty_loop d (i + 4) \<longleftrightarrow> (\<forall>n. \<not> above20 d (i + 4 + 4 * n))" .
      have "(\<forall>n. \<not> above20 d (i + 4 * n)) \<longleftrightarrow> (\<forall>n. \<not> above20 d (i + 4 + 4 * n))"
      proof
        assume a: "\<forall>n. \<not> above20 d (i + 4 * n)"
        show "\<forall>n. \<not> above20 d (i + 4 + 4 * n)"
        proof
          fix n
          from a have "\<not> above20 d (i + 4 * Suc n)" by blast
          then show "\<not> above20 d (i + 4 + 4 * n)" by (simp add: add.assoc)
        qed
      next
        assume a: "\<forall>n. \<not> above20 d (i + 4 + 4 * n)"
        show "\<forall>n. \<not> above20 d (i + 4 * n)"
        proof
          fix n
          show "\<not> above20 d (i + 4 * n)"
          proof (cases n)
            case 0
            with False show ?thesis by simp
          next
            case (Suc m)
            from a have "\<not> above20 d (i + 4 + 4 * m)" by blast
            with Suc show ?thesis by (simp add: add.assoc)
          qed
        qed
      qed
      with IH True False show ?thesis by (metis isEmpty_loop.simps)
    qed
  qed
qed

lemma ink_index_iff:
  assumes len: "length pix = 4 * (W * H)"
  shows "(\<exists>y < H. \<exists>x < W. above20 pix ((y * W + x) * 4)) \<longleftrightarrow> (\<exists>n. above20 pix (4 * n))"
proof
  assume "\<exists>y < H. \<exists>x < W. above20 pix ((y * W + x) * 4)"
  then obtain y x where "above20 pix ((y * W + x) * 4)" by blast
  then have "above20 pix (4 * (y * W + x))" by (simp add: mult.commute)
  then show "\<exists>n. above20 pix (4 * n)" by blast
next
  assume "\<exists>n. above20 pix (4 * n)"
  then obtain n where n: "above20 pix (4 * n)" by blast
  then have "4 * n < 4 * (W * H)" using len by (simp add: above20_def)
  then have nlt: "n < W * H" by simp
  then have Wpos: "0 < W" by (cases W) auto
  have y: "n div W < H" using nlt Wpos by (simp add: less_mult_imp_div_less mult.commute)
  have x: "n mod W < W" using Wpos by simp
  have eq: "(n div W * W + n mod W) * 4 = 4 * n" by simp
  from n have "above20 pix ((n div W * W + n mod W) * 4)" by (simp only: eq)
  with y x show "\<exists>y < H. \<exists>x < W. above20 pix ((y * W + x) * 4)" by blast
qed

lemma ink_exists_iff:
  assumes len: "length pix = 4 * (W * H)"
  shows "(\<exists>n. above20 pix (4 * n)) \<longleftrightarrow> (\<exists>k < W * H. 20 < pix ! (4 * k))"
  using len by (auto simp: above20_def)

lemma isEmpty_ink:
  assumes "wf_canvas c" "width c \<noteq> 0" "height c \<noteq> 0"
  shows "isEmpty c = Inr (\<not> (\<exists>k < unat (width c) * unat (height c). 20 < data c ! (4 * k)))"
    and "found (bounding_box (data c) (unat (width c)) (unat (height c)))
           \<longleftrightarrow> (\<exists>k < unat (width c) * unat (height c). 20 < data c ! (4 * k))"
proof -
  from assms(1) have len: "length (data c) = 4 * (unat (width c) * unat (height c))"
    by (simp add: wf_canvas_def)
  have "isEmpty_loop (data c) 0 \<longleftrightarrow> \<not> (\<exists>n. above20 (data c) (4 * n))"
    by (simp add: isEmpty_loop_iff)
  also have "\<dots> \<longleftrightarrow> \<not> (\<exists>k < unat (width c) * unat (height c). 20 < data c ! (4 * k))"
    by (simp only: ink_exists_iff [OF len])
  finally show "isEmpty c = Inr (\<not> (\<exists>k < unat (width c) * unat (height c). 20 < data c ! (4 * k)))"
    using assms(2,3) by (simp add: isEmpty_def getImageData_def)
  show "found (bounding_box (data c) (unat (width c)) (unat (height c)))
           \<longleftrightarrow> (\<exists>k < unat (width c) * unat (height c). 20 < data c ! (4 * k))"
    by (simp only: found_bounding_box ink_index_iff [OF len] ink_exists_iff [OF len])
qed

text \<open>
  Claim C5, amended. On a canvas of non-zero width and height, \<open>isEmpty\<close> returns
  true exactly when no pixel's red byte exceeds 20 and false exactly when one does,
  and the scan of \<open>prepare\<close> finds ink exactly when one does: both compare the red
  byte with the constant 20 by a strict \<open>>\<close>. When no red byte exceeds 20,
  \<open>prepare\<close> returns the all-black 28 by 28 canvas with nothing drawn on it. On a
  canvas with a zero width or height both functions raise the IndexSizeError of
  \<open>getImageData\<close>.
\<close>

theorem empty_iff_no_ink:
  assumes "wf_canvas c"
  shows "(width c \<noteq> 0 \<and> height c \<noteq> 0 \<longrightarrow>
            (isEmpty c = Inr True
               \<longleftrightarrow> (\<forall>k < unat (width c) * unat (height c). \<not> 20 < data c ! (4 * k)))
          \<and> (isEmpty c = Inr False
               \<longleftrightarrow> (\<exists>k < unat (width c) * unat (height c). 20 < data c ! (4 * k)))
          \<and> (found (bounding_box (data c) (unat (width c)) (unat (height c)))
               \<longleftrightarrow> (\<exists>k < unat (width c) * unat (height c). 20 < data c ! (4 * k)))
          \<and> ((\<forall>k < unat (width c) * unat (height c). \<not> 20 < data c ! (4 * k))
               \<longrightarrow> prepare c = Inr blank28))
       \<and> (width c = 0 \<or> height c = 0 \<longrightarrow>
            prepare c = Inl IndexSizeError \<and> isEmpty c = Inl IndexSizeError)"
proof (intro conjI impI)
  assume pos: "width c \<noteq> 0 \<and> height c \<noteq> 0"
  note e = isEmpty_ink [OF assms pos [THEN conjunct1] pos [THEN conjunct2]]
  show "isEmpty c = Inr True
          \<longleftrightarrow> (\<forall>k < unat (width c) * unat (height c). \<not> 20 < data c ! (4 * k))"
    by (simp only: e(1)) auto
  show "isEmpty c = Inr False
          \<longleftrightarrow> (\<exists>k < unat (width c) * unat (height c). 20 < data c ! (4 * k))"
    by (simp only: e(1)) auto
  show "found (bounding_box (data c) (unat (width c)) (unat (height c)))
          \<longleftrightarrow> (\<exists>k < unat (width c) * unat (height c). 20 < data c ! (4 * k))"
    by (rule e(2))
  assume "\<forall>k < unat (width c) * unat (height c). \<not> 20 < data c ! (4 * k)"
  then have "\<not> found (bounding_box (data c) (unat (width c)) (unat (height c)))"
    by (simp only: e(2)) blast
  then show "prepare c = Inr blank28"
    using pos by (simp add: prepare_def getImageData_def Let_def)
next
  assume "width c = 0 \<or> height c = 0"
  then show "prepare c = Inl IndexSizeError"
    by (auto simp: prepare_def getImageData_def)
next
  assume "width c = 0 \<or> height c = 0"
  then show "isEmpty c = Inl IndexSizeError"
    by (auto simp: isEmpty_def getImageData_def)
qed

text \<open>
  Claim C5 as stated fails on a canvas with a zero dimension: it has no pixel
  above the threshold, and both functions raise instead of returning.
\<close>

theorem zero_canvas_raises:
  "wf_canvas zero0 \<and> unat (width zero0) * unat (height zero0) = 0
   \<and> prepare zero0 = Inl IndexSizeError \<and> isEmpty zero0 = Inl IndexSizeError"
  by (simp add: wf_canvas_def zero0_def prepare_def isEmpty_def getImageData_def)

lemma dark2_red: "data dark2 ! 0 = 20" "data dark2 ! 4 = 3"
  by (simp_all add: dark2_def)

lemma dark2_wf: "wf_canvas dark2" "width dark2 \<noteq> 0" "height dark2 \<noteq> 0"
  by (simp_all add: wf_canvas_def dark2_def)

lemma dark2_k: "k < unat (width dark2) * unat (height dark2) \<Longrightarrow> k = 0 \<or> k = 1"
  by (simp add: dark2_def less_2_cases_iff)

lemma dark2_cmp: "\<not> (20::8 word) < 20" "\<not> (20::8 word) < 3"
  by simp_all

lemma dark2_noink: "\<forall>k < unat (width dark2) * unat (height dark2). \<not> 20 < data dark2 ! (4 * k)"
proof (intro allI impI)
  fix k assume "k < unat (width dark2) * unat (height dark2)"
  then have "k = 0 \<or> k = 1" by (rule dark2_k)
  then show "\<not> 20 < data dark2 ! (4 * k)"
  proof
    assume "k = 0" then show ?thesis by (simp only: mult_0_right dark2_red dark2_cmp not_False_eq_True)
  next
    assume "k = 1" then show ?thesis by (simp only: mult_1_right dark2_red dark2_cmp not_False_eq_True)
  qed
qed

lemma row4_wf: "wf_canvas row4" "width row4 \<noteq> 0" "height row4 \<noteq> 0"
  by (simp_all add: wf_canvas_def row4_def)

lemma row4_red: "(0::nat) < unat (width row4) * unat (height row4)" "20 < data row4 ! (4 * 0)"
  by (simp_all add: row4_def)

lemma zero0_wf: "wf_canvas zero0" "width zero0 = 0"
  by (simp_all add: wf_canvas_def zero0_def)

text \<open>
  Witness for C5: a canvas of two pixels whose red bytes are 20 and 3, a row of
  four pixels whose first red byte is 255, and a canvas of width 0.
\<close>

theorem empty_iff_no_ink_witness:
  "wf_canvas dark2 \<and> width dark2 \<noteq> 0 \<and> height dark2 \<noteq> 0
   \<and> \<not> 20 < data dark2 ! 0 \<and> \<not> 20 < data dark2 ! 4
   \<and> isEmpty dark2 = Inr True \<and> prepare dark2 = Inr blank28
   \<and> wf_canvas row4 \<and> width row4 \<noteq> 0 \<and> height row4 \<noteq> 0 \<and> 20 < data row4 ! (4 * 0)
   \<and> isEmpty row4 = Inr False
   \<and> found (bounding_box (data row4) (unat (width row4)) (unat (height row4)))
   \<and> wf_canvas zero0 \<and> width zero0 = 0
   \<and> prepare zero0 = Inl IndexSizeError \<and> isEmpty zero0 = Inl IndexSizeError"
proof -
  from empty_iff_no_ink [OF dark2_wf(1)] dark2_wf(2,3) dark2_noink
  have d: "isEmpty dark2 = Inr True" "prepare dark2 = Inr blank28" by blast+
  from row4_red have ex: "\<exists>k < unat (width row4) * unat (height row4). 20 < data row4 ! (4 * k)"
    by blast
  from empty_iff_no_ink [OF row4_wf(1)] row4_wf(2,3) ex
  have r: "isEmpty row4 = Inr False"
    "found (bounding_box (data row4) (unat (width row4)) (unat (height row4)))" by blast+
  from empty_iff_no_ink [OF zero0_wf(1)] zero0_wf(2)
  have z: "prepare zero0 = Inl IndexSizeError" "isEmpty zero0 = Inl IndexSizeError" by blast+
  show ?thesis
    using d r z dark2_wf row4_wf zero0_wf row4_red(2)
    by (simp only: dark2_red dark2_cmp simp_thms)
qed

lemma scan_pixel_ok:
  "box_ok W H b \<Longrightarrow> x < W \<Longrightarrow> y < H \<Longrightarrow> box_ok W H (scan_pixel pix W y b x)"
  by (auto simp: box_ok_def scan_pixel_def)

lemma scan_pixel_covers_keep:
  "covers b u v \<Longrightarrow> covers (scan_pixel pix W y b x) u v"
  by (auto simp: covers_def scan_pixel_def)

lemma scan_pixel_covers_new:
  "above20 pix ((y * W + x) * 4) \<Longrightarrow> box_ok W H b \<Longrightarrow> covers (scan_pixel pix W y b x) x y"
  by (auto simp: covers_def scan_pixel_def box_ok_def)

lemma foldl_scan_pixel_ok:
  "box_ok W H b \<Longrightarrow> \<forall>x \<in> set xs. x < W \<Longrightarrow> y < H
     \<Longrightarrow> box_ok W H (foldl (scan_pixel pix W y) b xs)"
  by (induction xs arbitrary: b) (simp_all add: scan_pixel_ok)

lemma foldl_scan_pixel_keep:
  "covers b u v \<Longrightarrow> covers (foldl (scan_pixel pix W y) b xs) u v"
  by (induction xs arbitrary: b) (simp_all add: scan_pixel_covers_keep)

lemma foldl_scan_pixel_new:
  "x \<in> set xs \<Longrightarrow> above20 pix ((y * W + x) * 4) \<Longrightarrow> box_ok W H b
     \<Longrightarrow> \<forall>x \<in> set xs. x < W \<Longrightarrow> y < H
     \<Longrightarrow> covers (foldl (scan_pixel pix W y) b xs) x y"
proof (induction xs arbitrary: b)
  case Nil
  then show ?case by simp
next
  case (Cons a xs)
  show ?case
  proof (cases "x = a")
    case True
    with Cons.prems have "covers (scan_pixel pix W y b a) x y"
      using scan_pixel_covers_new [of pix y W x H b] by simp
    then show ?thesis by (simp add: foldl_scan_pixel_keep)
  next
    case False
    with Cons.prems have "x \<in> set xs" by simp
    moreover from Cons.prems have "box_ok W H (scan_pixel pix W y b a)"
      by (simp add: scan_pixel_ok)
    ultimately show ?thesis using Cons.prems Cons.IH by simp
  qed
qed

lemma scan_row_ok: "box_ok W H b \<Longrightarrow> y < H \<Longrightarrow> box_ok W H (scan_row pix W b y)"
  by (simp add: scan_row_def foldl_scan_pixel_ok)

lemma scan_row_keep: "covers b u v \<Longrightarrow> covers (scan_row pix W b y) u v"
  by (simp add: scan_row_def foldl_scan_pixel_keep)

lemma scan_row_new:
  "x < W \<Longrightarrow> y < H \<Longrightarrow> above20 pix ((y * W + x) * 4) \<Longrightarrow> box_ok W H b
     \<Longrightarrow> covers (scan_row pix W b y) x y"
  unfolding scan_row_def by (rule foldl_scan_pixel_new [where H = H]) simp_all

lemma foldl_scan_row_ok:
  "box_ok W H b \<Longrightarrow> \<forall>y \<in> set ys. y < H \<Longrightarrow> box_ok W H (foldl (scan_row pix W) b ys)"
  by (induction ys arbitrary: b) (simp_all add: scan_row_ok)

lemma foldl_scan_row_keep:
  "covers b u v \<Longrightarrow> covers (foldl (scan_row pix W) b ys) u v"
  by (induction ys arbitrary: b) (simp_all add: scan_row_keep)

lemma foldl_scan_row_new:
  "y \<in> set ys \<Longrightarrow> x < W \<Longrightarrow> above20 pix ((y * W + x) * 4) \<Longrightarrow> box_ok W H b
     \<Longrightarrow> \<forall>y \<in> set ys. y < H
     \<Longrightarrow> covers (foldl (scan_row pix W) b ys) x y"
proof (induction ys arbitrary: b)
  case Nil
  then show ?case by simp
next
  case (Cons a ys)
  show ?case
  proof (cases "y = a")
    case True
    with Cons.prems have "covers (scan_row pix W b a) x y"
      using scan_row_new [of x W y H pix b] by simp
    then show ?thesis by (simp add: foldl_scan_row_keep)
  next
    case False
    with Cons.prems have "y \<in> set ys" by simp
    moreover from Cons.prems have "box_ok W H (scan_row pix W b a)"
      by (simp add: scan_row_ok)
    ultimately show ?thesis using Cons.prems Cons.IH by simp
  qed
qed

lemma bounding_box_ok: "0 < W \<Longrightarrow> 0 < H \<Longrightarrow> box_ok W H (bounding_box pix W H)"
  unfolding bounding_box_def by (rule foldl_scan_row_ok) (simp_all add: box_ok_def)

lemma bounding_box_covers:
  "x < W \<Longrightarrow> y < H \<Longrightarrow> above20 pix ((y * W + x) * 4) \<Longrightarrow> covers (bounding_box pix W H) x y"
  unfolding bounding_box_def by (rule foldl_scan_row_new [where H = H]) (simp_all add: box_ok_def)

lemma c22_pos: "0 < dbl (22 / 100)"
  by (rule dbl_sign) simp

lemma crop_fields:
  "sw (crop_of W H b) =
     min (dbl (real W - max 0 (dbl (real (x0 b)
            - dbl (max (real (x1 b) - real (x0 b)) (real (y1 b) - real (y0 b)) * dbl (22 / 100))))))
         (dbl (real (x1 b) - real (x0 b)
            + dbl (dbl (max (real (x1 b) - real (x0 b)) (real (y1 b) - real (y0 b)) * dbl (22 / 100)) * 2)))"
  "sh (crop_of W H b) =
     min (dbl (real H - max 0 (dbl (real (y0 b)
            - dbl (max (real (x1 b) - real (x0 b)) (real (y1 b) - real (y0 b)) * dbl (22 / 100))))))
         (dbl (real (y1 b) - real (y0 b)
            + dbl (dbl (max (real (x1 b) - real (x0 b)) (real (y1 b) - real (y0 b)) * dbl (22 / 100)) * 2)))"
  by (simp_all add: crop_of_def Let_def)

lemma side_positive:
  fixes n N :: nat and w p :: real
  assumes n: "n < N" "N < 2 ^ 53" and w: "0 \<le> w" and p: "0 < p"
  shows "0 < min (dbl (real N - max 0 (dbl (real n - p)))) (dbl (w + dbl (p * 2)))"
proof -
  have "n < 2 ^ 53" using n by linarith
  then have ex: "dbl (real n) = real n" by (rule dbl_nat)
  have "dbl (real n - p) \<le> dbl (real n)" using p by (intro dbl_mono) simp
  then have "max 0 (dbl (real n - p)) \<le> real n" by (simp add: ex)
  moreover have "real n < real N" using n(1) by simp
  ultimately have "0 < real N - max 0 (dbl (real n - p))" by linarith
  then have a: "0 < dbl (real N - max 0 (dbl (real n - p)))" by (rule dbl_sign)
  have "0 < dbl (p * 2)" using p by (intro dbl_sign) simp
  then have "0 < w + dbl (p * 2)" using w by linarith
  then have b: "0 < dbl (w + dbl (p * 2))" by (rule dbl_sign)
  from a b show ?thesis by simp
qed

lemma crop_positive:
  assumes ok: "box_ok W H b" and f: "found b" and span: "x0 b < x1 b \<or> y0 b < y1 b"
    and bound: "W < 2 ^ 53" "H < 2 ^ 53"
  shows "0 < sw (crop_of W H b) \<and> 0 < sh (crop_of W H b)"
proof -
  define bw where "bw = real (x1 b) - real (x0 b)"
  define bh where "bh = real (y1 b) - real (y0 b)"
  define pad where "pad = dbl (max bw bh * dbl (22 / 100))"
  from ok f have le: "x0 b \<le> x1 b" "x1 b < W" "y0 b \<le> y1 b" "y1 b < H"
    by (auto simp: box_ok_def)
  have bw0: "0 \<le> bw" and bh0: "0 \<le> bh" using le by (simp_all add: bw_def bh_def)
  have "0 < max bw bh" using span le by (auto simp: bw_def bh_def max_def)
  then have "0 < max bw bh * dbl (22 / 100)" using c22_pos by simp
  then have pad0: "0 < pad" unfolding pad_def by (rule dbl_sign)
  have xW: "x0 b < W" and yH: "y0 b < H" using le by simp_all
  have "0 < sw (crop_of W H b)"
    unfolding crop_fields bw_def [symmetric] bh_def [symmetric] pad_def [symmetric]
    by (rule side_positive [OF xW bound(1) bw0 pad0])
  moreover have "0 < sh (crop_of W H b)"
    unfolding crop_fields bw_def [symmetric] bh_def [symmetric] pad_def [symmetric]
    by (rule side_positive [OF yH bound(2) bh0 pad0])
  ultimately show ?thesis by simp
qed

lemma unat_below_2_53: "unat (w :: 32 word) < 2 ^ 53"
proof -
  have "unat w < 2 ^ 32" using unsigned_less [of w, where ?'a = nat] by simp
  also have "(2::nat) ^ 32 < 2 ^ 53" by simp
  finally show ?thesis .
qed

lemma dest_of_positive:
  assumes "0 < sw c" "0 < sh c"
  shows "dest_of c =
     \<lparr>dx = Num (dbl (dbl (28 - dbl (sw c * min (dbl (20 / sw c)) (dbl (20 / sh c)))) / 2)),
      dy = Num (dbl (dbl (28 - dbl (sh c * min (dbl (20 / sw c)) (dbl (20 / sh c)))) / 2)),
      dw = Num (dbl (sw c * min (dbl (20 / sw c)) (dbl (20 / sh c)))),
      dh = Num (dbl (sh c * min (dbl (20 / sw c)) (dbl (20 / sh c))))\<rparr>"
  using assms by (simp add: dest_of_def scale_of_def js_sub_def Let_def)

lemma prepare_positive:
  assumes nz: "width c \<noteq> 0" "height c \<noteq> 0"
    and f: "found (bounding_box (data c) (unat (width c)) (unat (height c)))"
    and pos: "0 < sw (crop_of (unat (width c)) (unat (height c))
                       (bounding_box (data c) (unat (width c)) (unat (height c))))"
             "0 < sh (crop_of (unat (width c)) (unat (height c))
                       (bounding_box (data c) (unat (width c)) (unat (height c))))"
  shows "prepare c = Inr (blank28\<lparr>painted := Some
           (let cr = crop_of (unat (width c)) (unat (height c))
                       (bounding_box (data c) (unat (width c)) (unat (height c)));
                sc = min (dbl (20 / sw cr)) (dbl (20 / sh cr))
            in \<lparr>src = cr,
                dst_x = dbl (dbl (28 - dbl (sw cr * sc)) / 2),
                dst_y = dbl (dbl (28 - dbl (sh cr * sc)) / 2),
                dst_w = dbl (sw cr * sc), dst_h = dbl (sh cr * sc)\<rparr>)\<rparr>)"
  using nz f pos
  by (simp add: prepare_def getImageData_def Let_def drawImage_def dest_of_positive)

lemma row4_box:
  "bounding_box (data row4) (unat (width row4)) (unat (height row4))
     = \<lparr>x0 = 0, y0 = 0, x1 = 3, y1 = 0, found = True\<rparr>"
  by code_simp

lemma dot2_box:
  "bounding_box (data dot2) (unat (width dot2)) (unat (height dot2))
     = \<lparr>x0 = 1, y0 = 1, x1 = 1, y1 = 1, found = True\<rparr>"
  by code_simp

lemma col5_box:
  "bounding_box (data col5) (unat (width col5)) (unat (height col5))
     = \<lparr>x0 = 0, y0 = 0, x1 = 0, y1 = 3, found = True\<rparr>"
  by code_simp

lemma row4_crop:
  "crop_of (unat (width row4)) (unat (height row4))
     (bounding_box (data row4) (unat (width row4)) (unat (height row4)))
     = \<lparr>sx = 0, sy = 0, sw = 4, sh = 1\<rparr>"
  by code_simp

lemma dot2_crop:
  "crop_of (unat (width dot2)) (unat (height dot2))
     (bounding_box (data dot2) (unat (width dot2)) (unat (height dot2)))
     = \<lparr>sx = 1, sy = 1, sw = 0, sh = 0\<rparr>"
  by code_simp

lemma col5_crop:
  "crop_of (unat (width col5)) (unat (height col5))
     (bounding_box (data col5) (unat (width col5)) (unat (height col5)))
     = \<lparr>sx = 0, sy = 0, sw = 1, sh = 607985949695017 / 140737488355328\<rparr>"
  by code_simp

lemma row4_ink: "ink_at row4 0 0" "ink_at row4 3 0"
  by (simp_all add: ink_at_def above20_def row4_def)

lemma dot2_wf: "wf_canvas dot2"
  by (simp add: wf_canvas_def dot2_def)

text \<open>
  Claim C2 as stated fails on a single ink pixel: \<open>bw\<close> and \<open>bh\<close> are differences
  of pixel indices, both 0, the padding is 0 and nothing floors the crop, so the crop
  has width 0 and height 0, the scale \<open>Math.min(20 / 0, 20 / 0)\<close> is Infinity, the
  destination size \<open>0 * Infinity\<close> is NaN, and \<open>drawImage\<close> paints nothing.
\<close>

theorem single_dot_zero_crop:
  "wf_canvas dot2
   \<and> found (bounding_box (data dot2) (unat (width dot2)) (unat (height dot2)))
   \<and> sw (crop_of (unat (width dot2)) (unat (height dot2))
            (bounding_box (data dot2) (unat (width dot2)) (unat (height dot2)))) = 0
   \<and> sh (crop_of (unat (width dot2)) (unat (height dot2))
            (bounding_box (data dot2) (unat (width dot2)) (unat (height dot2)))) = 0
   \<and> scale_of (crop_of (unat (width dot2)) (unat (height dot2))
            (bounding_box (data dot2) (unat (width dot2)) (unat (height dot2)))) = PInf
   \<and> dw (dest_of (crop_of (unat (width dot2)) (unat (height dot2))
            (bounding_box (data dot2) (unat (width dot2)) (unat (height dot2))))) = NaN
   \<and> prepare dot2 = Inr blank28"
proof -
  have "prepare dot2 = Inr blank28"
    by (simp add: prepare_def getImageData_def Let_def dot2_crop drawImage_def)
       (simp add: dot2_def)
  then show ?thesis
    unfolding dot2_crop
    by (simp add: dot2_wf dot2_box scale_of_def dest_of_def Let_def)
qed

text \<open>
  Claim C2, amended. When the canvas holds two different ink pixels (in particular
  when the ink lies in one row or one column and spans at least two pixels), the
  padding of 22 percent of the larger box dimension makes both crop dimensions
  positive, so neither \<open>20 / sw\<close> nor \<open>20 / sh\<close> divides by zero, the scale is
  finite and the crop is drawn on the 28 by 28 canvas.
\<close>

theorem padded_crop_positive:
  assumes wf: "wf_canvas c"
    and p: "x < unat (width c)" "y < unat (height c)" "ink_at c x y"
    and q: "u < unat (width c)" "v < unat (height c)" "ink_at c u v"
    and ne: "x \<noteq> u \<or> y \<noteq> v"
  shows "0 < sw (crop_of (unat (width c)) (unat (height c))
                  (bounding_box (data c) (unat (width c)) (unat (height c))))
       \<and> 0 < sh (crop_of (unat (width c)) (unat (height c))
                  (bounding_box (data c) (unat (width c)) (unat (height c))))
       \<and> js_finite (scale_of (crop_of (unat (width c)) (unat (height c))
                  (bounding_box (data c) (unat (width c)) (unat (height c)))))
       \<and> (\<exists>bl. prepare c = Inr (blank28\<lparr>painted := Some bl\<rparr>))"
proof -
  define W where "W = unat (width c)"
  define H where "H = unat (height c)"
  define b where "b = bounding_box (data c) W H"
  from p have pos: "0 < W" "0 < H" by (simp_all add: W_def H_def)
  then have nz: "width c \<noteq> 0" "height c \<noteq> 0" by (auto simp: W_def H_def)
  have ok: "box_ok W H b"
    unfolding b_def by (rule bounding_box_ok [OF pos])
  have c1: "covers b x y" unfolding b_def W_def H_def
    using p by (simp add: bounding_box_covers ink_at_def)
  have c2: "covers b u v" unfolding b_def W_def H_def
    using q by (simp add: bounding_box_covers ink_at_def)
  from c1 have f: "found b" by (simp add: covers_def)
  have span: "x0 b < x1 b \<or> y0 b < y1 b"
    using c1 c2 ne by (auto simp: covers_def)
  have bW: "W < 2 ^ 53" "H < 2 ^ 53" unfolding W_def H_def by (rule unat_below_2_53)+
  have cp: "0 < sw (crop_of W H b) \<and> 0 < sh (crop_of W H b)"
    by (rule crop_positive [OF ok f span bW])
  then have fin: "js_finite (scale_of (crop_of W H b))"
    by (simp add: scale_of_def)
  have "\<exists>bl. prepare c = Inr (blank28\<lparr>painted := Some bl\<rparr>)"
    using prepare_positive [OF nz] f cp unfolding b_def W_def H_def by blast
  with cp fin show ?thesis unfolding b_def W_def H_def by blast
qed

text \<open>
  Witness for C2: one row of four pixels with ink at both ends.
\<close>

theorem padded_crop_positive_witness:
  "wf_canvas row4 \<and> ink_at row4 0 0 \<and> ink_at row4 3 0
   \<and> 0 < sw (crop_of (unat (width row4)) (unat (height row4))
               (bounding_box (data row4) (unat (width row4)) (unat (height row4))))
   \<and> 0 < sh (crop_of (unat (width row4)) (unat (height row4))
               (bounding_box (data row4) (unat (width row4)) (unat (height row4))))
   \<and> (\<exists>bl. prepare row4 = Inr (blank28\<lparr>painted := Some bl\<rparr>))"
proof -
  have "(0::nat) < unat (width row4)" "(3::nat) < unat (width row4)"
    "(0::nat) < unat (height row4)" "(0::nat) \<noteq> 3 \<or> (0::nat) \<noteq> 0"
    by (simp_all add: row4_def)
  from padded_crop_positive [OF row4_wf(1) this(1) this(3) row4_ink(1) this(2) this(3) row4_ink(2) this(4)]
  show ?thesis using row4_wf(1) row4_ink by blast
qed

declare dbl_simps(2,3) [simp del]

lemma dbl_upper:
  assumes "0 \<le> x"
  shows "dbl x \<le> x + x / 2 ^ 53"
proof -
  have "dbl x - x \<le> \<bar>dbl x - x\<bar>" by simp
  also have "\<dots> \<le> \<bar>x\<bar> / 2 ^ 53" by (rule dbl_error)
  also have "\<dots> = x / 2 ^ 53" using assms by simp
  finally show ?thesis by linarith
qed

lemma round_20: "dbl (20 * (1 + 1 / 2 ^ 53)) = 20 + 1 / 2 ^ 48"
  by code_simp

lemma round_8: "dbl (8 - 1 / 2 ^ 48) = 8 - 1 / 2 ^ 48"
  by code_simp

lemma round_4: "dbl ((8 - 1 / 2 ^ 48) / 2) = 4 - 1 / 2 ^ 49"
  by code_simp

lemma scaled_bounds:
  fixes a b :: real
  assumes "0 < a" "0 < b"
  shows "0 < dbl (a * min (dbl (20 / a)) (dbl (20 / b)))"
    and "dbl (a * min (dbl (20 / a)) (dbl (20 / b))) \<le> 20 + 1 / 2 ^ 48"
proof -
  have qa: "0 < dbl (20 / a)" using assms(1) by (intro dbl_sign(1)) simp
  have qb: "0 < dbl (20 / b)" using assms(2) by (intro dbl_sign(1)) simp
  from qa qb have m: "0 < min (dbl (20 / a)) (dbl (20 / b))" by simp
  then have "0 < a * min (dbl (20 / a)) (dbl (20 / b))" using assms(1) by simp
  then show "0 < dbl (a * min (dbl (20 / a)) (dbl (20 / b)))" by (rule dbl_sign)
  have "dbl (20 / a) \<le> 20 / a + (20 / a) / 2 ^ 53" using assms(1) by (intro dbl_upper) simp
  then have "a * dbl (20 / a) \<le> a * (20 / a + (20 / a) / 2 ^ 53)"
    using assms(1) by (intro mult_left_mono) simp_all
  also have "\<dots> = 20 * (1 + 1 / 2 ^ 53)" using assms(1) by (simp add: field_simps)
  finally have "a * dbl (20 / a) \<le> 20 * (1 + 1 / 2 ^ 53)" .
  moreover have "a * min (dbl (20 / a)) (dbl (20 / b)) \<le> a * dbl (20 / a)"
    using assms(1) by (intro mult_left_mono) simp_all
  ultimately have "a * min (dbl (20 / a)) (dbl (20 / b)) \<le> 20 * (1 + 1 / 2 ^ 53)" by linarith
  then have "dbl (a * min (dbl (20 / a)) (dbl (20 / b))) \<le> dbl (20 * (1 + 1 / 2 ^ 53))"
    by (rule dbl_mono)
  then show "dbl (a * min (dbl (20 / a)) (dbl (20 / b))) \<le> 20 + 1 / 2 ^ 48"
    by (simp only: round_20)
qed

lemma offset_bounds:
  fixes d :: real
  assumes "0 < d" "d \<le> 20 + 1 / 2 ^ 48"
  shows "4 - 1 / 2 ^ 49 \<le> dbl (dbl (28 - d) / 2)"
    and "dbl (dbl (28 - d) / 2) + d \<le> 24 + 1 / 2 ^ 47"
proof -
  have "8 - 1 / 2 ^ 48 \<le> 28 - d" using assms(2) by simp
  then have "dbl (8 - 1 / 2 ^ 48) \<le> dbl (28 - d)" by (rule dbl_mono)
  then have z: "8 - 1 / 2 ^ 48 \<le> dbl (28 - d)" by (simp only: round_8)
  then have "(8 - 1 / 2 ^ 48) / 2 \<le> dbl (28 - d) / 2" by simp
  then have "dbl ((8 - 1 / 2 ^ 48) / 2) \<le> dbl (dbl (28 - d) / 2)" by (rule dbl_mono)
  then show "4 - 1 / 2 ^ 49 \<le> dbl (dbl (28 - d) / 2)" by (simp only: round_4)
  define eps where "eps = (1::real) / 2 ^ 53"
  have eps: "0 < eps" "eps \<le> 1 / 1000" by (simp_all add: eps_def)
  have pw: "(1::real) / 2 ^ 48 = 32 * eps" "(1::real) / 2 ^ 49 = 16 * eps"
    "(1::real) / 2 ^ 47 = 64 * eps" by (simp_all add: eps_def)
  have up: "dbl x \<le> x + x * eps" if "0 \<le> x" for x
    using dbl_upper [OF that] by (simp add: eps_def)
  have d20: "d \<le> 20 + 32 * eps" using assms(2) by (simp only: pw)
  have z8: "8 - 32 * eps \<le> dbl (28 - d)" using z by (simp only: pw)
  have p: "0 \<le> 28 - d" using d20 eps by linarith
  have "0 \<le> d * eps" using assms(1) eps(1) by simp
  moreover have "(28 - d) * eps = 28 * eps - d * eps" by (simp add: algebra_simps)
  ultimately have u2: "dbl (28 - d) \<le> (28 - d) + 28 * eps" using up [OF p] by linarith
  have y0: "0 \<le> dbl (28 - d) / 2" using z8 eps by linarith
  have y15: "dbl (28 - d) / 2 \<le> 15" using u2 assms(1) eps by linarith
  have "dbl (28 - d) / 2 * eps \<le> 15 * eps" using y15 eps(1) by (intro mult_right_mono) simp_all
  with up [OF y0] have u3: "dbl (dbl (28 - d) / 2) \<le> dbl (28 - d) / 2 + 15 * eps" by linarith
  have "dbl (dbl (28 - d) / 2) + d \<le> 24 + 64 * eps" using u2 u3 d20 eps by linarith
  then show "dbl (dbl (28 - d) / 2) + d \<le> 24 + 1 / 2 ^ 47" by (simp only: pw)
qed

text \<open>
  Claim C6, amended. With some ink and a crop of positive width and height,
  \<open>prepare\<close> draws the crop scaled by the one factor
  \<open>sc = min (20 / sw) (20 / sh)\<close>, every operation rounded to a double: the
  destination is \<open>sw * sc\<close> by \<open>sh * sc\<close>, each at most \<open>20 + 2 ^ -48\<close>, one unit in
  the last place above 20, and its offsets are \<open>(28 - dw) / 2\<close> and \<open>(28 - dh) / 2\<close>.
  The destination rectangle lies between \<open>4 - 2 ^ -49\<close> and \<open>24 + 2 ^ -47\<close> on both
  axes, so the call can touch pixels 3 to 24 only: the centred 20 by 20 region
  (pixels 4 to 23) and slivers thinner than \<open>2 ^ -47\<close> of a pixel next to it.
\<close>

theorem centred_up_to_rounding:
  assumes nz: "width c \<noteq> 0" "height c \<noteq> 0"
    and f: "found (bounding_box (data c) (unat (width c)) (unat (height c)))"
    and pw: "0 < sw (crop_of (unat (width c)) (unat (height c))
                      (bounding_box (data c) (unat (width c)) (unat (height c))))"
    and ph: "0 < sh (crop_of (unat (width c)) (unat (height c))
                      (bounding_box (data c) (unat (width c)) (unat (height c))))"
  shows "\<exists>bl. prepare c = Inr (blank28\<lparr>painted := Some bl\<rparr>)
          \<and> src bl = crop_of (unat (width c)) (unat (height c))
                       (bounding_box (data c) (unat (width c)) (unat (height c)))
          \<and> dst_w bl = dbl (sw (src bl) * min (dbl (20 / sw (src bl))) (dbl (20 / sh (src bl))))
          \<and> dst_h bl = dbl (sh (src bl) * min (dbl (20 / sw (src bl))) (dbl (20 / sh (src bl))))
          \<and> 0 < dst_w bl \<and> dst_w bl \<le> 20 + 1 / 2 ^ 48
          \<and> 0 < dst_h bl \<and> dst_h bl \<le> 20 + 1 / 2 ^ 48
          \<and> dst_x bl = dbl (dbl (28 - dst_w bl) / 2)
          \<and> dst_y bl = dbl (dbl (28 - dst_h bl) / 2)
          \<and> 4 - 1 / 2 ^ 49 \<le> dst_x bl \<and> dst_x bl + dst_w bl \<le> 24 + 1 / 2 ^ 47
          \<and> 4 - 1 / 2 ^ 49 \<le> dst_y bl \<and> dst_y bl + dst_h bl \<le> 24 + 1 / 2 ^ 47
          \<and> (\<forall>i j. may_paint bl i j \<longrightarrow> 3 \<le> i \<and> i \<le> 24 \<and> 3 \<le> j \<and> j \<le> 24)"
proof -
  define cr where "cr = crop_of (unat (width c)) (unat (height c))
                          (bounding_box (data c) (unat (width c)) (unat (height c)))"
  define sc where "sc = min (dbl (20 / sw cr)) (dbl (20 / sh cr))"
  define bl where "bl = \<lparr>src = cr,
                          dst_x = dbl (dbl (28 - dbl (sw cr * sc)) / 2),
                          dst_y = dbl (dbl (28 - dbl (sh cr * sc)) / 2),
                          dst_w = dbl (sw cr * sc), dst_h = dbl (sh cr * sc)\<rparr>"
  have pos: "0 < sw cr" "0 < sh cr" using pw ph by (simp_all add: cr_def)
  have prep: "prepare c = Inr (blank28\<lparr>painted := Some bl\<rparr>)"
    using prepare_positive [OF nz f pw ph] by (simp add: bl_def sc_def cr_def Let_def)
  have s: "src bl = cr" by (simp add: bl_def)
  have w: "dst_w bl = dbl (sw cr * min (dbl (20 / sw cr)) (dbl (20 / sh cr)))"
    and h: "dst_h bl = dbl (sh cr * min (dbl (20 / sw cr)) (dbl (20 / sh cr)))"
    by (simp_all add: bl_def sc_def)
  have wb: "0 < dst_w bl" "dst_w bl \<le> 20 + 1 / 2 ^ 48"
    unfolding w by (rule scaled_bounds [OF pos])+
  have hb: "0 < dst_h bl" "dst_h bl \<le> 20 + 1 / 2 ^ 48"
    unfolding h min.commute [of "dbl (20 / sw cr)"] by (rule scaled_bounds [OF pos(2) pos(1)])+
  have x: "dst_x bl = dbl (dbl (28 - dst_w bl) / 2)"
    and y: "dst_y bl = dbl (dbl (28 - dst_h bl) / 2)"
    by (simp_all add: bl_def)
  have xb: "4 - 1 / 2 ^ 49 \<le> dst_x bl" "dst_x bl + dst_w bl \<le> 24 + 1 / 2 ^ 47"
    unfolding x by (rule offset_bounds [OF wb])+
  have yb: "4 - 1 / 2 ^ 49 \<le> dst_y bl" "dst_y bl + dst_h bl \<le> 24 + 1 / 2 ^ 47"
    unfolding y by (rule offset_bounds [OF hb])+
  have paint: "3 \<le> i \<and> i \<le> 24 \<and> 3 \<le> j \<and> j \<le> 24" if mp: "may_paint bl i j" for i j
  proof -
    from mp have a: "dst_x bl < real i + 1" "real i < dst_x bl + dst_w bl"
      "dst_y bl < real j + 1" "real j < dst_y bl + dst_h bl"
      by (simp_all add: may_paint_def)
    have e: "(1::real) / 2 ^ 49 < 1" "(1::real) / 2 ^ 47 < 1" by simp_all
    have "2 < real i" using a(1) xb(1) e(1) by linarith
    moreover have "real i < 25" using a(2) xb(2) e(2) by linarith
    moreover have "2 < real j" using a(3) yb(1) e(1) by linarith
    moreover have "real j < 25" using a(4) yb(2) e(2) by linarith
    ultimately show ?thesis by linarith
  qed
  show ?thesis
    apply (rule exI [of _ bl])
    using prep s w h wb hb x y xb yb paint unfolding s cr_def [symmetric] by blast
qed

lemma col5_prepare:
  "prepare col5 = Inr (blank28\<lparr>painted := Some
     \<lparr>src = \<lparr>sx = 0, sy = 0, sw = 1, sh = 607985949695017 / 140737488355328\<rparr>,
      dst_x = 6578174455719405 / 562949953421312,
      dst_y = 4 - 1 / 2 ^ 49,
      dst_w = 1303124892178963 / 281474976710656,
      dst_h = 20 + 1 / 2 ^ 48\<rparr>\<rparr>)"
  by code_simp

text \<open>
  Claim C6 as stated fails in doubles. On a column of five pixels with ink in
  rows 0 and 3 the crop is 1 by 4.32, the scale is \<open>20 / 4.32\<close> rounded up, and the
  product \<open>4.32 * sc\<close> rounds to \<open>20 + 2 ^ -48\<close>: the destination is higher than 20,
  its offset is below 4, and pixel row 3 is inside it.
\<close>

theorem column_exceeds_20:
  "wf_canvas col5
   \<and> (\<exists>bl. prepare col5 = Inr (blank28\<lparr>painted := Some bl\<rparr>)
          \<and> sw (src bl) = 1 \<and> sh (src bl) = 607985949695017 / 140737488355328
          \<and> dst_h bl = 20 + 1 / 2 ^ 48 \<and> 20 < dst_h bl
          \<and> dst_y bl = 4 - 1 / 2 ^ 49 \<and> dst_y bl < 4
          \<and> may_paint bl 11 3)"
proof -
  have w: "wf_canvas col5" by (simp add: wf_canvas_def col5_def)
  show ?thesis
    unfolding col5_prepare
    by (rule conjI [OF w], rule exI, rule conjI [OF refl]) (simp add: may_paint_def)
qed

lemma row4_found: "found (bounding_box (data row4) (unat (width row4)) (unat (height row4)))"
  by (simp add: row4_box)

lemma row4_dest:
  "dbl (4 * min (dbl (20 / 4)) (dbl (20 / 1))) = 20"
  "dbl (1 * min (dbl (20 / 4)) (dbl (20 / 1))) = 5"
  "dbl (dbl (28 - 20) / 2) = 4"
  "dbl (dbl (28 - 5) / 2) = 23 / 2"
  by code_simp+

text \<open>
  Witness for C6: on the row of four pixels the crop is 4 by 1, the scale is 5, the
  destination is 20 by 5 at offset (4, 11.5), and pixel (4, 12) is painted.
\<close>

theorem centred_up_to_rounding_witness:
  "width row4 \<noteq> 0 \<and> height row4 \<noteq> 0
   \<and> found (bounding_box (data row4) (unat (width row4)) (unat (height row4)))
   \<and> (\<exists>bl. prepare row4 = Inr (blank28\<lparr>painted := Some bl\<rparr>)
          \<and> sw (src bl) = 4 \<and> sh (src bl) = 1
          \<and> dst_w bl = 20 \<and> dst_h bl = 5 \<and> dst_x bl = 4 \<and> dst_y bl = 23 / 2
          \<and> may_paint bl 4 12
          \<and> (\<forall>i j. may_paint bl i j \<longrightarrow> 3 \<le> i \<and> i \<le> 24 \<and> 3 \<le> j \<and> j \<le> 24))"
proof -
  have pw: "0 < sw (crop_of (unat (width row4)) (unat (height row4))
                     (bounding_box (data row4) (unat (width row4)) (unat (height row4))))"
    and ph: "0 < sh (crop_of (unat (width row4)) (unat (height row4))
                     (bounding_box (data row4) (unat (width row4)) (unat (height row4))))"
    by (simp_all add: row4_crop)
  from centred_up_to_rounding [OF row4_wf(2,3) row4_found pw ph] obtain bl where
    bl: "prepare row4 = Inr (blank28\<lparr>painted := Some bl\<rparr>)"
      "src bl = crop_of (unat (width row4)) (unat (height row4))
                  (bounding_box (data row4) (unat (width row4)) (unat (height row4)))"
      "dst_w bl = dbl (sw (src bl) * min (dbl (20 / sw (src bl))) (dbl (20 / sh (src bl))))"
      "dst_h bl = dbl (sh (src bl) * min (dbl (20 / sw (src bl))) (dbl (20 / sh (src bl))))"
      "dst_x bl = dbl (dbl (28 - dst_w bl) / 2)" "dst_y bl = dbl (dbl (28 - dst_h bl) / 2)"
      "\<forall>i j. may_paint bl i j \<longrightarrow> 3 \<le> i \<and> i \<le> 24 \<and> 3 \<le> j \<and> j \<le> 24"
    by blast
  have s: "sw (src bl) = 4" "sh (src bl) = 1" by (simp_all add: bl(2) row4_crop)
  have wh: "dst_w bl = 20" "dst_h bl = 5" unfolding bl(3,4) s by (rule row4_dest)+
  have xy: "dst_x bl = 4" "dst_y bl = 23 / 2" unfolding bl(5,6) wh by (rule row4_dest)+
  have mp: "may_paint bl 4 12" by (simp add: may_paint_def wh xy)
  show ?thesis using row4_wf(2,3) row4_found bl(1,7) s wh xy mp by blast
qed
section \<open>Properties of the activation summary\<close>

lemma length_pad16: "length (pad16 arr) = 16"
  by (simp add: pad16_def)

lemma nth_pad16: "i < 16 \<Longrightarrow> pad16 arr ! i = (if i < length arr then arr ! i else Num 0)"
  unfolding pad16_def by (subst nth_map) (simp_all del: upt_Suc)

lemma length_compactActivation: "length (compactActivation t) = length (summary_of t)"
  by (simp add: compactActivation_def Let_def)

lemma nth_compactActivation:
  "i < length (summary_of t) \<Longrightarrow>
     compactActivation t ! i = js_div (summary_of t ! i) (max_with_floor (summary_of t))"
  by (simp add: compactActivation_def Let_def)

lemma index_in_range:
  fixes h w f H W F :: nat
  assumes "h < H" "w < W" "f < F"
  shows "h * W * F + w * F + f < H * W * F"
proof -
  have "w * F + f < Suc w * F" using assms(3) by simp
  also have "\<dots> \<le> W * F" using assms(2) by (intro mult_le_mono1) simp
  finally have a: "w * F + f < W * F" .
  have "h * W * F + w * F + f < h * W * F + W * F" using a by simp
  also have "\<dots> = Suc h * (W * F)" by (simp add: mult.assoc)
  also have "\<dots> \<le> H * (W * F)" using assms(1) by (intro mult_le_mono1) simp
  finally show ?thesis by (simp add: mult.assoc)
qed

lemma row_sum:
  assumes "\<forall>w < n. g w < length d"
  shows "foldl (\<lambda>sum w. js_add sum (data_at d (g w))) (Num a) [0..<n]
           = Num (a + (\<Sum>w < n. d ! g w))"
  using assms by (induction n) (simp_all add: data_at_def)

lemma grid_sum:
  assumes "\<forall>h < n. \<forall>w < W. g h w < length d"
  shows "foldl (\<lambda>sum h. foldl (\<lambda>sum w. js_add sum (data_at d (g h w))) sum [0..<W]) (Num a) [0..<n]
           = Num (a + (\<Sum>h < n. \<Sum>w < W. d ! g h w))"
  using assms
proof (induction n)
  case 0
  then show ?case by simp
next
  case (Suc n)
  then have IH: "foldl (\<lambda>sum h. foldl (\<lambda>sum w. js_add sum (data_at d (g h w))) sum [0..<W]) (Num a) [0..<n]
           = Num (a + (\<Sum>h < n. \<Sum>w < W. d ! g h w))" by simp
  from Suc.prems have r: "\<forall>w < W. g n w < length d" by simp
  show ?case by (simp add: IH row_sum [OF r] add.assoc)
qed

lemma channel_sum_wf:
  assumes "0 < B" "length d = B * H * W * F" "f < F"
  shows "channel_sum d H W F f = Num (\<Sum>h < H. \<Sum>w < W. d ! (h * W * F + w * F + f))"
proof -
  have "\<forall>h < H. \<forall>w < W. h * W * F + w * F + f < length d"
  proof (intro allI impI)
    fix h w assume "h < H" "w < W"
    then have "h * W * F + w * F + f < H * W * F" using assms(3) by (rule index_in_range)
    also have "\<dots> = 1 * (H * W * F)" by simp
    also have "\<dots> \<le> B * (H * W * F)" using assms(1) by (intro mult_le_mono1) simp
    finally show "h * W * F + w * F + f < length d" by (simp add: assms(2) mult.assoc)
  qed
  from grid_sum [OF this, of 0] show ?thesis by (simp add: channel_sum_def)
qed

lemma summary_of_4d:
  assumes "shape t = [B, H, W, F]" "wf_tensor t"
  shows "length (summary_of t) = min F 16"
    and "f < min F 16 \<Longrightarrow> summary_of t ! f =
           Num ((\<Sum>h < H. \<Sum>w < W. tdata t ! (h * W * F + w * F + f)) / real (H * W))"
proof -
  from assms have wf: "0 < B" "0 < H" "0 < W" "length (tdata t) = B * H * W * F"
    by (simp_all add: wf_tensor_def)
  show "length (summary_of t) = min F 16" by (simp add: summary_of_def assms(1))
  assume f: "f < min F 16"
  then have "f < F" by simp
  from channel_sum_wf [OF wf(1) wf(4) this] f wf(2,3)
  show "summary_of t ! f =
           Num ((\<Sum>h < H. \<Sum>w < W. tdata t ! (h * W * F + w * F + f)) / real (H * W))"
    by (simp add: summary_of_def assms(1) del: upt_Suc)
qed

lemma summary_of_flat:
  assumes "length (shape t) \<noteq> 4"
  shows "summary_of t = map Num (take 16 (tdata t))"
  using assms by (auto simp: summary_of_def split: list.splits)

text \<open>
  Claim C3. What reaches the renderer for a hidden layer is \<open>pad16\<close> of
  \<open>_compactActivation\<close> of the layer's tensor, and it has exactly 16 entries: entry
  \<open>i\<close> is the rescaled summary entry while the summary has one, and 0 after that.
  For a tensor of four positive dimensions the summary has \<open>min F 16\<close> entries, entry
  \<open>f\<close> being the mean of channel \<open>f\<close> over the \<open>H\<close> by \<open>W\<close> positions; for any other
  shape the summary is the first 16 entries of the flat data.
\<close>

theorem summarize_16:
  "length (pad16 (compactActivation t)) = 16
   \<and> (\<forall>i < 16. pad16 (compactActivation t) ! i =
        (if i < length (summary_of t)
         then js_div (summary_of t ! i) (max_with_floor (summary_of t)) else Num 0))
   \<and> (\<forall>B H W F. shape t = [B, H, W, F] \<and> wf_tensor t \<longrightarrow>
        length (summary_of t) = min F 16
        \<and> (\<forall>f < min F 16. summary_of t ! f =
              Num ((\<Sum>h < H. \<Sum>w < W. tdata t ! (h * W * F + w * F + f)) / real (H * W))))
   \<and> (length (shape t) \<noteq> 4 \<longrightarrow> summary_of t = map Num (take 16 (tdata t)))"
proof (intro conjI allI impI)
  show "length (pad16 (compactActivation t)) = 16" by (rule length_pad16)
next
  fix i :: nat assume "i < 16"
  then show "pad16 (compactActivation t) ! i =
        (if i < length (summary_of t)
         then js_div (summary_of t ! i) (max_with_floor (summary_of t)) else Num 0)"
    by (simp add: nth_pad16 length_compactActivation nth_compactActivation)
next
  fix B H W F assume "shape t = [B, H, W, F] \<and> wf_tensor t"
  then show "length (summary_of t) = min F 16" by (simp add: summary_of_4d(1))
next
  fix B H W F f assume a: "shape t = [B, H, W, F] \<and> wf_tensor t" and f: "f < min F 16"
  from a have s: "shape t = [B, H, W, F]" and w: "wf_tensor t" by simp_all
  show "summary_of t ! f =
              Num ((\<Sum>h < H. \<Sum>w < W. tdata t ! (h * W * F + w * F + f)) / real (H * W))"
    by (rule summary_of_4d(2) [OF s w f])
next
  assume "length (shape t) \<noteq> 4"
  then show "summary_of t = map Num (take 16 (tdata t))" by (rule summary_of_flat)
qed

lemma fmap2_facts: "shape fmap2 = [1, 2, 1, 2]" "wf_tensor fmap2"
  by (simp_all add: fmap2_def wf_tensor_def)

text \<open>
  Witness for C3: a 2 by 1 feature map with two channels, and a flat vector.
\<close>

theorem summarize_16_witness:
  "shape fmap2 = [1, 2, 1, 2] \<and> wf_tensor fmap2 \<and> tdata fmap2 = [1, 4, 3, 2]
   \<and> length (pad16 (compactActivation fmap2)) = 16
   \<and> length (summary_of fmap2) = 2
   \<and> summary_of fmap2 ! 0 = Num 2 \<and> summary_of fmap2 ! 1 = Num 3
   \<and> pad16 (compactActivation fmap2) ! 1 = js_div (summary_of fmap2 ! 1) (max_with_floor (summary_of fmap2))
   \<and> pad16 (compactActivation fmap2) ! 2 = Num 0
   \<and> length (shape peak3) \<noteq> 4 \<and> summary_of peak3 = map Num (take 16 (tdata peak3))"
proof -
  note th = summarize_16 [of fmap2]
  from th have len: "length (pad16 (compactActivation fmap2)) = 16" by blast
  from th fmap2_facts have s: "length (summary_of fmap2) = min 2 16"
    "\<forall>f < min 2 16. summary_of fmap2 ! f =
        Num ((\<Sum>h < 2. \<Sum>w < 1. tdata fmap2 ! (h * 1 * 2 + w * 2 + f)) / real (2 * 1))"
    by blast+
  from s(2) have "summary_of fmap2 ! 0 = Num ((\<Sum>h < 2. \<Sum>w < 1. tdata fmap2 ! (h * 1 * 2 + w * 2 + 0)) / real (2 * 1))"
    "summary_of fmap2 ! 1 = Num ((\<Sum>h < 2. \<Sum>w < 1. tdata fmap2 ! (h * 1 * 2 + w * 2 + 1)) / real (2 * 1))"
    by simp_all
  then have v: "summary_of fmap2 ! 0 = Num 2" "summary_of fmap2 ! 1 = Num 3"
    by (simp_all add: fmap2_def lessThan_Suc numeral_2_eq_2)
  from th have e: "\<forall>i < 16. pad16 (compactActivation fmap2) ! i =
        (if i < length (summary_of fmap2)
         then js_div (summary_of fmap2 ! i) (max_with_floor (summary_of fmap2)) else Num 0)"
    by blast
  from e s(1) have p: "pad16 (compactActivation fmap2) ! 1 = js_div (summary_of fmap2 ! 1) (max_with_floor (summary_of fmap2))"
    "pad16 (compactActivation fmap2) ! 2 = Num 0" by simp_all
  have n4: "length (shape peak3) \<noteq> 4" by (simp add: peak3_def)
  with summarize_16 [of peak3] have f: "summary_of peak3 = map Num (take 16 (tdata peak3))" by blast
  show ?thesis using len s(1) v p n4 f fmap2_facts by (simp add: fmap2_def)
qed

lemma foldl_js_max_Num:
  "foldl js_max (Num a) (map Num vs) = Num (Max (insert a (set vs)))"
proof (induction vs arbitrary: a)
  case Nil
  then show ?case by simp
next
  case (Cons v vs)
  have "Max (insert (max a v) (set vs)) = Max (insert a (insert v (set vs)))"
  proof (cases "set vs = {}")
    case True
    then show ?thesis by (simp add: max.commute)
  next
    case False
    then show ?thesis by (simp add: max.assoc)
  qed
  with Cons.IH [of "max a v"] show ?case by simp
qed

lemma max_with_floor_Num:
  "max_with_floor (map Num vs) = Num (Max (insert (1 / 10000) (set vs)))"
proof (cases vs)
  case Nil
  then show ?thesis by (simp add: max_with_floor_def)
next
  case (Cons v ws)
  have "max_with_floor (map Num vs) = foldl js_max (Num v) (map Num (ws @ [1 / 10000]))"
    by (simp add: max_with_floor_def Cons)
  also have "\<dots> = Num (Max (insert v (set (ws @ [1 / 10000]))))"
    by (rule foldl_js_max_Num)
  also have "insert v (set (ws @ [1 / 10000])) = insert (1 / 10000) (set vs)"
    by (auto simp: Cons)
  finally show ?thesis .
qed

lemma floor_le_max: "1 / 10000 \<le> Max (insert (1 / 10000 :: real) (set vs))"
  by (rule Max_ge) simp_all

lemma compactActivation_Num:
  assumes "summary_of t = map Num vs"
  shows "compactActivation t = map (\<lambda>v. Num (v / Max (insert (1 / 10000) (set vs)))) vs"
proof -
  have "0 < Max (insert (1 / 10000 :: real) (set vs))"
    using floor_le_max [of vs] by linarith
  then show ?thesis
    by (simp add: compactActivation_def Let_def assms max_with_floor_Num)
qed

lemma summary_of_Num:
  assumes "wf_tensor t"
  shows "\<exists>vs. summary_of t = map Num vs
           \<and> ((\<forall>v \<in> set (tdata t). v = 0) \<longrightarrow> (\<forall>v \<in> set vs. v = 0))"
proof (cases "length (shape t) = 4")
  case False
  then have "summary_of t = map Num (take 16 (tdata t))" by (rule summary_of_flat)
  moreover have "(\<forall>v \<in> set (tdata t). v = 0) \<longrightarrow> (\<forall>v \<in> set (take 16 (tdata t)). v = 0)"
    by (auto dest: in_set_takeD)
  ultimately show ?thesis by blast
next
  case True
  then obtain B H W F where s: "shape t = [B, H, W, F]"
    by (auto simp: length_Suc_conv numeral_eq_Suc)
  from assms s have wf: "0 < B" "0 < H" "0 < W" "length (tdata t) = B * H * W * F"
    by (simp_all add: wf_tensor_def)
  define m where "m = (\<lambda>f. (\<Sum>h < H. \<Sum>w < W. tdata t ! (h * W * F + w * F + f)) / real (H * W))"
  have eq: "summary_of t = map Num (map m [0..<min F 16])"
    by (simp add: summary_of_def s m_def channel_sum_wf [OF wf(1) wf(4)] wf(2,3) del: upt_Suc)
  have z: "\<forall>v \<in> set (map m [0..<min F 16]). v = 0" if zero: "\<forall>v \<in> set (tdata t). v = 0"
  proof -
    have "tdata t ! (h * W * F + w * F + f) = 0" if "h < H" "w < W" "f < F" for h w f
    proof -
      have "h * W * F + w * F + f < H * W * F" using that by (rule index_in_range)
      also have "\<dots> = 1 * (H * W * F)" by simp
      also have "\<dots> \<le> B * (H * W * F)" using wf(1) by (intro mult_le_mono1) simp
      finally have "h * W * F + w * F + f < length (tdata t)" by (simp add: wf(4) mult.assoc)
      with zero show ?thesis by simp
    qed
    then have "m f = 0" if "f < F" for f using that by (simp add: m_def)
    then show ?thesis by simp
  qed
  from eq z show ?thesis by blast
qed

text \<open>
  Claim C7, amended. \<open>_compactActivation\<close> divides every summary entry by the maximum
  of the entries and 0.0001. On a tensor of zeros every entry of the result is 0. When
  one summary entry is strictly greater than every other and is at least 0.0001,
  that entry of the result is exactly 1 and every other entry is below 1.
\<close>

theorem rescale_by_max:
  "compactActivation t = map (\<lambda>v. js_div v (max_with_floor (summary_of t))) (summary_of t)
   \<and> (wf_tensor t \<and> (\<forall>v \<in> set (tdata t). v = 0) \<longrightarrow> (\<forall>e \<in> set (compactActivation t). e = Num 0))
   \<and> (\<forall>vs k. summary_of t = map Num vs \<and> k < length vs
         \<and> (\<forall>j < length vs. j \<noteq> k \<longrightarrow> vs ! j < vs ! k) \<and> 1 / 10000 \<le> vs ! k
       \<longrightarrow> compactActivation t ! k = Num 1
           \<and> (\<forall>j < length vs. j \<noteq> k \<longrightarrow> (\<exists>v. compactActivation t ! j = Num v \<and> v < 1)))"
proof (intro conjI)
  show "compactActivation t = map (\<lambda>v. js_div v (max_with_floor (summary_of t))) (summary_of t)"
    by (simp add: compactActivation_def Let_def)
next
  show "wf_tensor t \<and> (\<forall>v \<in> set (tdata t). v = 0) \<longrightarrow> (\<forall>e \<in> set (compactActivation t). e = Num 0)"
  proof
  assume a: "wf_tensor t \<and> (\<forall>v \<in> set (tdata t). v = 0)"
  then obtain vs where vs: "summary_of t = map Num vs" "\<forall>v \<in> set vs. v = 0"
    using summary_of_Num [of t] by blast
  show "\<forall>e \<in> set (compactActivation t). e = Num 0"
    using vs(2) by (auto simp: compactActivation_Num [OF vs(1)])
  qed
next
  show "\<forall>vs k. summary_of t = map Num vs \<and> k < length vs
         \<and> (\<forall>j < length vs. j \<noteq> k \<longrightarrow> vs ! j < vs ! k) \<and> 1 / 10000 \<le> vs ! k
       \<longrightarrow> compactActivation t ! k = Num 1
           \<and> (\<forall>j < length vs. j \<noteq> k \<longrightarrow> (\<exists>v. compactActivation t ! j = Num v \<and> v < 1))"
  proof (intro allI impI)
  fix vs k
  assume a: "summary_of t = map Num vs \<and> k < length vs
         \<and> (\<forall>j < length vs. j \<noteq> k \<longrightarrow> vs ! j < vs ! k) \<and> 1 / 10000 \<le> vs ! k"
  then have s: "summary_of t = map Num vs" and k: "k < length vs"
    and dom: "\<forall>j < length vs. j \<noteq> k \<longrightarrow> vs ! j < vs ! k" and fl: "1 / 10000 \<le> vs ! k"
    by simp_all
  have mx: "Max (insert (1 / 10000) (set vs)) = vs ! k"
  proof (rule Max_eqI)
    show "finite (insert (1 / 10000) (set vs))" by simp
    show "vs ! k \<in> insert (1 / 10000) (set vs)" using k by simp
    fix y assume "y \<in> insert (1 / 10000) (set vs)"
    then show "y \<le> vs ! k"
    proof
      assume "y = 1 / 10000" with fl show ?thesis by simp
    next
      assume "y \<in> set vs"
      then obtain j where "j < length vs" "y = vs ! j" by (auto simp: in_set_conv_nth)
      with dom show ?thesis by (cases "j = k") (auto simp: less_imp_le)
    qed
  qed
  have pos: "0 < vs ! k" using fl by linarith
  have c: "compactActivation t = map (\<lambda>v. Num (v / vs ! k)) vs"
    using compactActivation_Num [OF s] by (simp add: mx)
  have one: "compactActivation t ! k = Num 1" using k pos by (simp add: c)
  have rest: "\<forall>j < length vs. j \<noteq> k \<longrightarrow> (\<exists>v. compactActivation t ! j = Num v \<and> v < 1)"
    using dom pos by (simp add: c)
  from one rest show "compactActivation t ! k = Num 1
           \<and> (\<forall>j < length vs. j \<noteq> k \<longrightarrow> (\<exists>v. compactActivation t ! j = Num v \<and> v < 1))" ..
  qed
qed

lemma tiny2_out: "compactActivation tiny2 = [Num (1 / 2), Num 0]"
  by (simp add: compactActivation_def summary_of_def tiny2_def max_with_floor_def)

text \<open>
  Claim C7 as stated fails when the dominant entry is below the floor constant: on
  the flat vector 0.00005, 0 the divisor is 0.0001, the result is 0.5, 0 and no entry
  equals 1.
\<close>

theorem below_floor_no_unit:
  "summary_of tiny2 = map Num [1 / 20000, 0] \<and> (0::real) < 1 / 20000
   \<and> compactActivation tiny2 = [Num (1 / 2), Num 0]
   \<and> Num 1 \<notin> set (compactActivation tiny2)"
  by (simp add: tiny2_out) (simp add: summary_of_def tiny2_def)

lemma peak3_summary: "summary_of peak3 = map Num [1, 4, 2]"
  by (simp add: summary_of_def peak3_def)

lemma zeros3_facts: "wf_tensor zeros3" "\<forall>v \<in> set (tdata zeros3). v = 0"
  "compactActivation zeros3 = [Num 0, Num 0, Num 0]"
  by (simp_all add: wf_tensor_def zeros3_def compactActivation_def summary_of_def max_with_floor_def)

text \<open>
  Witness for C7: a flat vector of zeros, and the flat vector 1, 4, 2.
\<close>

theorem rescale_by_max_witness:
  "wf_tensor zeros3 \<and> tdata zeros3 = [0, 0, 0] \<and> compactActivation zeros3 = [Num 0, Num 0, Num 0]
   \<and> summary_of peak3 = map Num [1, 4, 2]
   \<and> compactActivation peak3 ! 1 = Num 1
   \<and> (\<exists>v. compactActivation peak3 ! 0 = Num v \<and> v < 1)
   \<and> (\<exists>v. compactActivation peak3 ! 2 = Num v \<and> v < 1)"
proof -
  have z: "\<forall>e \<in> set (compactActivation zeros3). e = Num 0"
    using rescale_by_max [of zeros3] zeros3_facts(1,2) by blast
  have h: "summary_of peak3 = map Num [1, 4, 2] \<and> (1::nat) < length [1, 4, 2 :: real]
         \<and> (\<forall>j < length [1, 4, 2 :: real]. j \<noteq> 1 \<longrightarrow> [1, 4, 2 :: real] ! j < [1, 4, 2] ! 1)
         \<and> 1 / 10000 \<le> [1, 4, 2 :: real] ! 1"
    by (simp add: peak3_summary less_Suc_eq)
  from rescale_by_max [of peak3] h
  have p: "compactActivation peak3 ! 1 = Num 1
     \<and> (\<forall>j < length [1, 4, 2 :: real]. j \<noteq> 1 \<longrightarrow> (\<exists>v. compactActivation peak3 ! j = Num v \<and> v < 1))"
    by blast
  then have "\<exists>v. compactActivation peak3 ! 0 = Num v \<and> v < 1"
    "\<exists>v. compactActivation peak3 ! 2 = Num v \<and> v < 1" by simp_all
  with p z show ?thesis
    by (simp add: zeros3_facts peak3_summary) (simp add: zeros3_def)
qed


section \<open>Properties of the layout\<close>




lemma length_layout_pixels: "length (layout_pixels W H) = 196"
  by (simp add: layout_pixels_def Let_def PIX_COLS_def PIX_ROWS_def length_concat comp_def sum_list_triv del: upt_Suc)





section \<open>Properties of the animation scheduler\<close>

lemma length_assign_targets: "length (assign_targets ns ts) = length ns"
  by (simp add: assign_targets_def)

lemma nth_assign_targets:
  "i < length ns \<Longrightarrow> assign_targets ns ts ! i = (ns ! i)\<lparr>target := min (jsget ts i) 1\<rparr>"
  by (simp add: assign_targets_def del: upt_Suc)

lemma layer_nodes_set: "layer_nodes k (set_layer_nodes k ns s) = ns"
  by (simp add: layer_nodes_def set_layer_nodes_def)

lemma layer_nodes_request_frame: "layer_nodes k (request_frame c s) = layer_nodes k s"
  by (simp add: layer_nodes_def request_frame_def)

lemma pixels_set_layer_nodes: "pixels (set_layer_nodes k ns s) = pixels s"
  by (simp add: set_layer_nodes_def)

lemma pixels_request_frame: "pixels (request_frame c s) = pixels s"
  by (simp add: request_frame_def)

lemma runs_set_layer_nodes: "runs (set_layer_nodes k ns s) = runs s"
  by (simp add: set_layer_nodes_def)

lemma nextLayer_assigns:
  assumes "r < length (runs s)" "li (runs s ! r) < 3"
  shows "layer_nodes (li (runs s ! r)) (nextLayer r now s)
           = assign_targets (layer_nodes (li (runs s ! r)) s) (layers (runs s ! r) ! li (runs s ! r))"
    and "pixels (nextLayer r now s) = pixels s"
    and "runs (nextLayer r now s) = runs s"
  using assms
  by (simp_all add: nextLayer_def Let_def layer_nodes_request_frame layer_nodes_set
      pixels_request_frame pixels_set_layer_nodes)
     (simp add: request_frame_def runs_set_layer_nodes)

lemma cancel_raf_fields:
  "pixels (cancel_raf s) = pixels s" "runs (cancel_raf s) = runs s"
  "h1Nodes (cancel_raf s) = h1Nodes s" "h2Nodes (cancel_raf s) = h2Nodes s"
  "outNodes (cancel_raf s) = outNodes s"
  by (simp_all add: cancel_raf_def split: option.splits)

lemma animate_fields:
  "h1Nodes (animate d cb now s) = assign_targets (h1Nodes s) (or_empty (h1Acts d))"
  "h2Nodes (animate d cb now s) = h2Nodes s"
  "outNodes (animate d cb now s) = outNodes s"
  "pixels (animate d cb now s) =
     (case inputPixels d of
        None \<Rightarrow> pixels s
      | Some px \<Rightarrow> map (\<lambda>i. (pixels s ! i)\<lparr>val := jsget px i\<rparr>) [0..<length (pixels s)])"
  "runs (animate d cb now s) = runs s @
     [\<lparr>layers = [or_empty (h1Acts d), or_empty (h2Acts d), or_empty (outActs d)],
       li = 0, onDone = cb\<rparr>]"
  by (simp_all add: animate_def Let_def nextLayer_def nth_append cancel_raf_fields
      layer_nodes_def set_layer_nodes_def request_frame_def split: option.splits)

lemma jsget_short: "length ts \<le> i \<Longrightarrow> jsget ts i = 0"
  by (simp add: jsget_def)

text \<open>
  Claim C8, amended. \<open>animate\<close> gives every node of the first hidden layer the
  target \<open>min (targets[i] ?? 0) 1\<close>, and \<open>nextLayer\<close> does the same for the layer a
  run has reached: an index past the end of the target array reads as 0, entries
  past the node count are never read, and an absent array of targets is the empty
  array. When \<open>inputPixels\<close> is given, pixel \<open>i\<close> gets \<open>inputPixels[i] ?? 0\<close>; when it
  is absent the pixels keep the values they had. The model has no error result
  because the source raises nowhere on these inputs.
\<close>

theorem animate_targets:
  "length (h1Nodes (animate d cb now s)) = length (h1Nodes s)
   \<and> (\<forall>i < length (h1Nodes s).
         target (h1Nodes (animate d cb now s) ! i) = min (jsget (or_empty (h1Acts d)) i) 1)
   \<and> runs (animate d cb now s) = runs s @
         [\<lparr>layers = [or_empty (h1Acts d), or_empty (h2Acts d), or_empty (outActs d)],
           li = 0, onDone = cb\<rparr>]
   \<and> (\<forall>r t s'. r < length (runs s') \<and> li (runs s' ! r) < 3 \<longrightarrow>
         length (layer_nodes (li (runs s' ! r)) (nextLayer r t s'))
           = length (layer_nodes (li (runs s' ! r)) s')
         \<and> (\<forall>i < length (layer_nodes (li (runs s' ! r)) s').
               target (layer_nodes (li (runs s' ! r)) (nextLayer r t s') ! i)
                 = min (jsget (layers (runs s' ! r) ! li (runs s' ! r)) i) 1))
   \<and> or_empty None = []
   \<and> (\<forall>ts i. length ts \<le> i \<longrightarrow> jsget ts i = 0)
   \<and> (\<forall>ts i. i < length ts \<longrightarrow> jsget ts i = ts ! i)
   \<and> (inputPixels d = None \<longrightarrow> pixels (animate d cb now s) = pixels s)
   \<and> (\<forall>px. inputPixels d = Some px \<longrightarrow>
         length (pixels (animate d cb now s)) = length (pixels s)
         \<and> (\<forall>i < length (pixels s). val (pixels (animate d cb now s) ! i) = jsget px i))"
proof -
  have a: "length (h1Nodes (animate d cb now s)) = length (h1Nodes s)"
    by (simp add: animate_fields length_assign_targets)
  have b: "\<forall>i < length (h1Nodes s).
         target (h1Nodes (animate d cb now s) ! i) = min (jsget (or_empty (h1Acts d)) i) 1"
    by (simp add: animate_fields nth_assign_targets)
  have c: "runs (animate d cb now s) = runs s @
         [\<lparr>layers = [or_empty (h1Acts d), or_empty (h2Acts d), or_empty (outActs d)],
           li = 0, onDone = cb\<rparr>]"
    by (rule animate_fields)
  have e: "\<forall>r t s'. r < length (runs s') \<and> li (runs s' ! r) < 3 \<longrightarrow>
         length (layer_nodes (li (runs s' ! r)) (nextLayer r t s'))
           = length (layer_nodes (li (runs s' ! r)) s')
         \<and> (\<forall>i < length (layer_nodes (li (runs s' ! r)) s').
               target (layer_nodes (li (runs s' ! r)) (nextLayer r t s') ! i)
                 = min (jsget (layers (runs s' ! r) ! li (runs s' ! r)) i) 1)"
    by (simp add: nextLayer_assigns(1) length_assign_targets nth_assign_targets)
  have f: "or_empty None = []" by (simp add: or_empty_def)
  have g: "\<forall>ts i. length ts \<le> i \<longrightarrow> jsget ts i = 0" "\<forall>ts i. i < length ts \<longrightarrow> jsget ts i = ts ! i"
    by (simp_all add: jsget_def)
  have h: "inputPixels d = None \<longrightarrow> pixels (animate d cb now s) = pixels s"
    by (simp add: animate_fields)
  have i: "\<forall>px. inputPixels d = Some px \<longrightarrow>
         length (pixels (animate d cb now s)) = length (pixels s)
         \<and> (\<forall>i < length (pixels s). val (pixels (animate d cb now s) ! i) = jsget px i)"
    by (simp add: animate_fields del: upt_Suc)
  from a b c e f g h i show ?thesis by (intro conjI) blast+
qed

lemma animate_ctl:
  "raf (animate d cb now s) = Some (next_handle s)"
  "frames (animate d cb now s) =
     (case raf s of None \<Rightarrow> frames s | Some h \<Rightarrow> filter (\<lambda>p. fst p \<noteq> h) (frames s))
       @ [(next_handle s, \<lparr>of_run = length (runs s), of_layer = 0, start = now\<rparr>)]"
  "timers (animate d cb now s) = timers s"
  "next_handle (animate d cb now s) = Suc (next_handle s)"
  "completed (animate d cb now s) = completed s"
  "draws (animate d cb now s) = draws s"
  by (simp_all add: animate_def Let_def nextLayer_def nth_append cancel_raf_def
      set_layer_nodes_def request_frame_def split: option.splits)

lemma step_done:
  assumes "ANIM_DUR \<le> now - start clo"
  shows "frames (step clo now s) = frames s"
    and "timers (step clo now s) = timers s @ [of_run clo]"
    and "runs (step clo now s) =
           (runs s)[of_run clo := (runs s ! of_run clo)\<lparr>li := Suc (li (runs s ! of_run clo))\<rparr>]"
    and "raf (step clo now s) = raf s"
    and "next_handle (step clo now s) = next_handle s"
    and "completed (step clo now s) = completed s"
    and "draws (step clo now s) = Suc (draws s)"
    and "layer_nodes (of_layer clo) (step clo now s)
           = map (\<lambda>n. n\<lparr>act := target n\<rparr>) (layer_nodes (of_layer clo) s)"
    and "pixels (step clo now s) = pixels s"
proof -
  have t: "min ((now - start clo) / ANIM_DUR) 1 = 1"
    using assms by (simp add: ANIM_DUR_def min_def)
  show "frames (step clo now s) = frames s"
    "timers (step clo now s) = timers s @ [of_run clo]"
    "runs (step clo now s) =
           (runs s)[of_run clo := (runs s ! of_run clo)\<lparr>li := Suc (li (runs s ! of_run clo))\<rparr>]"
    "raf (step clo now s) = raf s"
    "next_handle (step clo now s) = next_handle s"
    "completed (step clo now s) = completed s"
    "draws (step clo now s) = Suc (draws s)"
    "pixels (step clo now s) = pixels s"
    by (simp_all add: step_def Let_def t draw_def set_layer_nodes_def)
  show "layer_nodes (of_layer clo) (step clo now s)
           = map (\<lambda>n. n\<lparr>act := target n\<rparr>) (layer_nodes (of_layer clo) s)"
    by (simp add: step_def Let_def t draw_def set_layer_nodes_def layer_nodes_def)
qed

lemma fire_frame_step:
  assumes "map_of (frames s) h = Some clo"
  shows "fire_frame h now s = step clo now (s\<lparr>frames := filter (\<lambda>p. fst p \<noteq> h) (frames s)\<rparr>)"
  using assms by (simp add: fire_frame_def)

lemma fire_timer_next:
  assumes "r \<in> set (timers s)" "r < length (runs s)" "li (runs s ! r) < 3"
  shows "frames (fire_timer r now s)
           = frames s @ [(next_handle s, \<lparr>of_run = r, of_layer = li (runs s ! r), start = now\<rparr>)]"
    and "timers (fire_timer r now s) = remove1 r (timers s)"
    and "runs (fire_timer r now s) = runs s"
    and "raf (fire_timer r now s) = Some (next_handle s)"
    and "next_handle (fire_timer r now s) = Suc (next_handle s)"
    and "completed (fire_timer r now s) = completed s"
    and "draws (fire_timer r now s) = draws s"
    and "layer_nodes (li (runs s ! r)) (fire_timer r now s)
           = assign_targets (layer_nodes (li (runs s ! r)) s) (layers (runs s ! r) ! li (runs s ! r))"
  using assms
  by (simp_all add: fire_timer_def nextLayer_def Let_def request_frame_def set_layer_nodes_def
      layer_nodes_def)

lemma fire_timer_done:
  assumes "r \<in> set (timers s)" "r < length (runs s)" "3 \<le> li (runs s ! r)"
    "onDone (runs s ! r) = Some cb"
  shows "completed (fire_timer r now s) = completed s @ [cb]"
    and "frames (fire_timer r now s) = frames s"
    and "timers (fire_timer r now s) = remove1 r (timers s)"
  using assms by (simp_all add: fire_timer_def nextLayer_def Let_def)

lemma reset_fields:
  "frames (reset s) =
     (case raf s of None \<Rightarrow> frames s | Some h \<Rightarrow> filter (\<lambda>p. fst p \<noteq> h) (frames s))"
  "timers (reset s) = timers s"
  "runs (reset s) = runs s"
  "raf (reset s) = raf s"
  "next_handle (reset s) = next_handle s"
  "completed (reset s) = completed s"
  "draws (reset s) = Suc (draws s)"
  "h1Nodes (reset s) = map (\<lambda>n. n\<lparr>act := 0, target := 0\<rparr>) (h1Nodes s)"
  "h2Nodes (reset s) = map (\<lambda>n. n\<lparr>act := 0, target := 0\<rparr>) (h2Nodes s)"
  "outNodes (reset s) = map (\<lambda>n. n\<lparr>act := 0, target := 0\<rparr>) (outNodes s)"
  "pixels (reset s) = map (\<lambda>p. p\<lparr>val := 0\<rparr>) (pixels s)"
  by (simp_all add: reset_def Let_def draw_def cancel_raf_def split: option.splits)

lemma init_fields:
  "raf (init_renderer a b) = None" "runs (init_renderer a b) = []"
  "frames (init_renderer a b) = []" "timers (init_renderer a b) = []"
  "next_handle (init_renderer a b) = 1" "completed (init_renderer a b) = []"
  "draws (init_renderer a b) = 1"
  "length (h1Nodes (init_renderer a b)) = 16" "length (h2Nodes (init_renderer a b)) = 16"
  "length (outNodes (init_renderer a b)) = 10" "length (pixels (init_renderer a b)) = 196"
  by (simp_all add: init_renderer_def Let_def layout_of_def H1_def H2_def OUT_def
      makeNodes_def layout_pixels_def PIX_COLS_def PIX_ROWS_def length_concat comp_def
      sum_list_triv del: upt_Suc)

lemma data_A_runs:
  "or_empty (h1Acts data_A) = [1]" "or_empty (h2Acts data_A) = [1]" "or_empty (outActs data_A) = [1]"
  "or_empty (h1Acts data_B) = []" "or_empty (h2Acts data_B) = []" "or_empty (outActs data_B) = []"
  by (simp_all add: data_A_def data_B_def or_empty_def)

lemma step_lengths:
  "length (h1Nodes (step clo now s)) = length (h1Nodes s)"
  "length (h2Nodes (step clo now s)) = length (h2Nodes s)"
  "length (outNodes (step clo now s)) = length (outNodes s)"
  "length (pixels (step clo now s)) = length (pixels s)"
  by (simp_all add: step_def Let_def draw_def set_layer_nodes_def layer_nodes_def request_frame_def)

text \<open>
  Claim C1 at a failing trace. The first run finishes its first layer at time 280
  and sets its 70 ms timer; the second \<open>animate\<close> at time 300 cancels only the frame
  handle in \<open>_raf\<close>, whose callback has already run, so the timer stays. When it
  fires, frame callbacks of run 1 (layer 0) and of run 0 (layer 1) are pending
  together, and run 0 goes on to call its completion callback, number 1.
\<close>

theorem superseded_run_continues:
  "pending_runs (run_events (init_renderer 260 500)
      [Animate data_A (Some 1) 0, Frame 1 280, Animate data_B (Some 2) 300, Timer 0 350]) = [1, 0]
   \<and> map (\<lambda>p. (of_run (snd p), of_layer (snd p)))
        (frames (run_events (init_renderer 260 500)
          [Animate data_A (Some 1) 0, Frame 1 280, Animate data_B (Some 2) 300, Timer 0 350]))
       = [(1, 0), (0, 1)]
   \<and> completed (run_events (init_renderer 260 500)
        [Animate data_A (Some 1) 0, Frame 1 280, Animate data_B (Some 2) 300, Timer 0 350,
         Frame 3 630, Timer 0 700, Frame 4 980, Timer 0 1050]) = [1]"
proof -
  define s0 where "s0 = init_renderer 260 500"
  define s1 where "s1 = animate data_A (Some 1) 0 s0"
  define s2 where "s2 = fire_frame 1 280 s1"
  define s3 where "s3 = animate data_B (Some 2) 300 s2"
  define s4 where "s4 = fire_timer 0 350 s3"
  define s5 where "s5 = fire_frame 3 630 s4"
  define s6 where "s6 = fire_timer 0 700 s5"
  define s7 where "s7 = fire_frame 4 980 s6"
  define s8 where "s8 = fire_timer 0 1050 s7"
  define rA where "rA = (\<lambda>k. \<lparr>layers = [[1], [1], [1::real]], li = k, onDone = Some (1::nat)\<rparr>)"
  define rB where "rB = \<lparr>layers = [[], [], [] :: real list], li = 0, onDone = Some (2::nat)\<rparr>"
  have c1: "raf s1 = Some 1" "frames s1 = [(1, \<lparr>of_run = 0, of_layer = 0, start = 0\<rparr>)]"
    "timers s1 = []" "runs s1 = [rA 0]" "next_handle s1 = 2" "completed s1 = []"
    by (simp_all add: s1_def s0_def animate_ctl animate_fields init_fields data_A_runs rA_def)
  have f2: "s2 = step \<lparr>of_run = 0, of_layer = 0, start = 0\<rparr> 280 (s1\<lparr>frames := []\<rparr>)"
    unfolding s2_def by (subst fire_frame_step [where clo = "\<lparr>of_run = 0, of_layer = 0, start = 0\<rparr>"])
      (simp_all add: c1)
  have c2: "raf s2 = Some 1" "frames s2 = []" "timers s2 = [0]" "runs s2 = [rA 1]"
    "next_handle s2 = 2" "completed s2 = []"
    unfolding f2 by (simp_all add: step_done ANIM_DUR_def c1 rA_def)
  have c3: "raf s3 = Some 2" "frames s3 = [(2, \<lparr>of_run = 1, of_layer = 0, start = 300\<rparr>)]"
    "timers s3 = [0]" "runs s3 = [rA 1, rB]" "next_handle s3 = 3" "completed s3 = []"
    by (simp_all add: s3_def animate_ctl animate_fields c2 data_A_runs rB_def)
  have c4: "raf s4 = Some 3"
    "frames s4 = [(2, \<lparr>of_run = 1, of_layer = 0, start = 300\<rparr>),
                  (3, \<lparr>of_run = 0, of_layer = 1, start = 350\<rparr>)]"
    "timers s4 = []" "runs s4 = [rA 1, rB]" "next_handle s4 = 4" "completed s4 = []"
    unfolding s4_def by (simp_all add: fire_timer_next c3 rA_def)
  have f5: "s5 = step \<lparr>of_run = 0, of_layer = 1, start = 350\<rparr> 630
                   (s4\<lparr>frames := [(2, \<lparr>of_run = 1, of_layer = 0, start = 300\<rparr>)]\<rparr>)"
    unfolding s5_def by (subst fire_frame_step [where clo = "\<lparr>of_run = 0, of_layer = 1, start = 350\<rparr>"])
      (simp_all add: c4)
  have c5: "frames s5 = [(2, \<lparr>of_run = 1, of_layer = 0, start = 300\<rparr>)]"
    "timers s5 = [0]" "runs s5 = [rA 2, rB]" "next_handle s5 = 4" "completed s5 = []"
    unfolding f5 by (simp_all add: step_done ANIM_DUR_def c4 rA_def)
  have c6: "frames s6 = [(2, \<lparr>of_run = 1, of_layer = 0, start = 300\<rparr>),
                         (4, \<lparr>of_run = 0, of_layer = 2, start = 700\<rparr>)]"
    "timers s6 = []" "runs s6 = [rA 2, rB]" "next_handle s6 = 5" "completed s6 = []"
    unfolding s6_def by (simp_all add: fire_timer_next c5 rA_def)
  have f7: "s7 = step \<lparr>of_run = 0, of_layer = 2, start = 700\<rparr> 980
                   (s6\<lparr>frames := [(2, \<lparr>of_run = 1, of_layer = 0, start = 300\<rparr>)]\<rparr>)"
    unfolding s7_def by (subst fire_frame_step [where clo = "\<lparr>of_run = 0, of_layer = 2, start = 700\<rparr>"])
      (simp_all add: c6)
  have c7: "timers s7 = [0]" "runs s7 = [rA 3, rB]" "completed s7 = []"
    unfolding f7 by (simp_all add: step_done ANIM_DUR_def c6 rA_def)
  have c8: "completed s8 = [1]"
    unfolding s8_def
    by (subst fire_timer_done(1) [where cb = 1]) (simp_all add: c7 rA_def)
  have e4: "run_events (init_renderer 260 500)
      [Animate data_A (Some 1) 0, Frame 1 280, Animate data_B (Some 2) 300, Timer 0 350] = s4"
    by (simp add: run_events_def s4_def s3_def s2_def s1_def s0_def)
  have e8: "run_events (init_renderer 260 500)
        [Animate data_A (Some 1) 0, Frame 1 280, Animate data_B (Some 2) 300, Timer 0 350,
         Frame 3 630, Timer 0 700, Frame 4 980, Timer 0 1050] = s8"
    by (simp add: run_events_def s8_def s7_def s6_def s5_def s4_def s3_def s2_def s1_def s0_def)
  show ?thesis unfolding e4 e8 by (simp add: pending_runs_def c4 c8)
qed

text \<open>
  Claim C4 at a failing trace. \<open>reset\<close> during the pause after the first layer sets
  every activation, every target and every preview value to 0 and draws once, but
  the timer of the run is still pending: when it fires, the run assigns the targets
  of the second hidden layer and its next frame moves node 0 of that layer to 1.
\<close>

theorem reset_leaves_timer:
  "map act (h1Nodes (run_events (init_renderer 260 500)
      [Animate data_A None 0, Frame 1 280, Reset])) = replicate 16 0
   \<and> map target (h1Nodes (run_events (init_renderer 260 500)
      [Animate data_A None 0, Frame 1 280, Reset])) = replicate 16 0
   \<and> map act (h2Nodes (run_events (init_renderer 260 500)
      [Animate data_A None 0, Frame 1 280, Reset])) = replicate 16 0
   \<and> map act (outNodes (run_events (init_renderer 260 500)
      [Animate data_A None 0, Frame 1 280, Reset])) = replicate 10 0
   \<and> map val (pixels (run_events (init_renderer 260 500)
      [Animate data_A None 0, Frame 1 280, Reset])) = replicate 196 0
   \<and> draws (run_events (init_renderer 260 500) [Animate data_A None 0, Frame 1 280, Reset])
       = Suc (draws (run_events (init_renderer 260 500) [Animate data_A None 0, Frame 1 280]))
   \<and> pending_runs (run_events (init_renderer 260 500)
      [Animate data_A None 0, Frame 1 280, Reset]) = [0]
   \<and> target (h2Nodes (run_events (init_renderer 260 500)
      [Animate data_A None 0, Frame 1 280, Reset, Timer 0 350]) ! 0) = 1
   \<and> act (h2Nodes (run_events (init_renderer 260 500)
      [Animate data_A None 0, Frame 1 280, Reset, Timer 0 350, Frame 2 630]) ! 0) = 1"
proof -
  define s0 where "s0 = init_renderer 260 500"
  define s1 where "s1 = animate data_A None 0 s0"
  define s2 where "s2 = fire_frame 1 280 s1"
  define s3 where "s3 = reset s2"
  define s4 where "s4 = fire_timer 0 350 s3"
  define s5 where "s5 = fire_frame 2 630 s4"
  define rA where "rA = (\<lambda>k. \<lparr>layers = [[1], [1], [1::real]], li = k, onDone = (None :: nat option)\<rparr>)"
  have c1: "raf s1 = Some 1" "frames s1 = [(1, \<lparr>of_run = 0, of_layer = 0, start = 0\<rparr>)]"
    "timers s1 = []" "runs s1 = [rA 0]" "next_handle s1 = 2"
    by (simp_all add: s1_def s0_def animate_ctl animate_fields init_fields data_A_runs rA_def)
  have l1: "length (h1Nodes s1) = 16" "length (h2Nodes s1) = 16" "length (outNodes s1) = 10"
    "length (pixels s1) = 196"
    by (simp_all add: s1_def s0_def animate_fields init_fields length_assign_targets data_A_def)
  have f2: "s2 = step \<lparr>of_run = 0, of_layer = 0, start = 0\<rparr> 280 (s1\<lparr>frames := []\<rparr>)"
    unfolding s2_def by (subst fire_frame_step [where clo = "\<lparr>of_run = 0, of_layer = 0, start = 0\<rparr>"])
      (simp_all add: c1)
  have c2: "raf s2 = Some 1" "frames s2 = []" "timers s2 = [0]" "runs s2 = [rA 1]"
    "next_handle s2 = 2"
    unfolding f2 by (simp_all add: step_done ANIM_DUR_def c1 rA_def)
  have l2: "length (h1Nodes s2) = 16" "length (h2Nodes s2) = 16" "length (outNodes s2) = 10"
    "length (pixels s2) = 196"
    unfolding f2 by (simp_all add: step_lengths l1)
  have c3: "raf s3 = Some 1" "frames s3 = []" "timers s3 = [0]" "runs s3 = [rA 1]"
    "next_handle s3 = 2" "draws s3 = Suc (draws s2)"
    by (simp_all add: s3_def reset_fields c2)
  have z3: "map act (h1Nodes s3) = replicate 16 0" "map target (h1Nodes s3) = replicate 16 0"
    "map act (h2Nodes s3) = replicate 16 0" "map act (outNodes s3) = replicate 10 0"
    "map val (pixels s3) = replicate 196 0"
    by (simp_all add: s3_def reset_fields comp_def map_replicate_const l2)
  have l3: "length (h2Nodes s3) = 16" by (simp add: s3_def reset_fields l2)
  have n3: "h2Nodes s3 ! 0 = (h2Nodes s2 ! 0)\<lparr>act := 0, target := 0\<rparr>"
    by (simp add: s3_def reset_fields l2)
  have ln: "layer_nodes 1 s = h2Nodes s" "layer_nodes (Suc 0) s = h2Nodes s" for s
    by (simp_all add: layer_nodes_def)
  have c4: "frames s4 = [(2, \<lparr>of_run = 0, of_layer = 1, start = 350\<rparr>)]"
    "h2Nodes s4 = assign_targets (h2Nodes s3) [1]"
    using fire_timer_next(1,8) [of 0 s3 350] by (simp_all add: s4_def c3 rA_def ln)
  have t4: "target (h2Nodes s4 ! 0) = 1" "act (h2Nodes s4 ! 0) = 0"
    by (simp_all add: c4 nth_assign_targets l3 jsget_def n3)
  have f5: "s5 = step \<lparr>of_run = 0, of_layer = 1, start = 350\<rparr> 630 (s4\<lparr>frames := []\<rparr>)"
    unfolding s5_def by (subst fire_frame_step [where clo = "\<lparr>of_run = 0, of_layer = 1, start = 350\<rparr>"])
      (simp_all add: c4)
  have "h2Nodes s5 = map (\<lambda>n. n\<lparr>act := target n\<rparr>) (h2Nodes s4)"
    using step_done(8) [of 630 "\<lparr>of_run = 0, of_layer = 1, start = 350\<rparr>" "s4\<lparr>frames := []\<rparr>"]
    by (simp add: f5 ANIM_DUR_def ln)
  then have a5: "act (h2Nodes s5 ! 0) = 1"
    by (simp add: c4 length_assign_targets l3 t4 [unfolded c4])
  have e2: "run_events (init_renderer 260 500) [Animate data_A None 0, Frame 1 280] = s2"
    by (simp add: run_events_def s2_def s1_def s0_def)
  have e3: "run_events (init_renderer 260 500) [Animate data_A None 0, Frame 1 280, Reset] = s3"
    by (simp add: run_events_def s3_def s2_def s1_def s0_def)
  have e4: "run_events (init_renderer 260 500) [Animate data_A None 0, Frame 1 280, Reset, Timer 0 350] = s4"
    by (simp add: run_events_def s4_def s3_def s2_def s1_def s0_def)
  have e5: "run_events (init_renderer 260 500)
      [Animate data_A None 0, Frame 1 280, Reset, Timer 0 350, Frame 2 630] = s5"
    by (simp add: run_events_def s5_def s4_def s3_def s2_def s1_def s0_def)
  show ?thesis unfolding e2 e3 e4 e5 by (simp add: z3 c3 t4 a5 pending_runs_def)
qed

lemma after_first_layer:
  "runs (fire_frame 1 280 (animate data_A cb 0 (init_renderer 260 500)))
     = [\<lparr>layers = [[1], [1], [1]], li = 1, onDone = cb\<rparr>]"
  "timers (fire_frame 1 280 (animate data_A cb 0 (init_renderer 260 500))) = [0]"
  "length (h2Nodes (fire_frame 1 280 (animate data_A cb 0 (init_renderer 260 500)))) = 16"
proof -
  define s1 where "s1 = animate data_A cb 0 (init_renderer 260 500)"
  have c1: "frames s1 = [(1, \<lparr>of_run = 0, of_layer = 0, start = 0\<rparr>)]"
    "timers s1 = []" "runs s1 = [\<lparr>layers = [[1], [1], [1]], li = 0, onDone = cb\<rparr>]"
    "length (h2Nodes s1) = 16"
    by (simp_all add: s1_def animate_ctl animate_fields init_fields data_A_runs)
  have f2: "fire_frame 1 280 s1 = step \<lparr>of_run = 0, of_layer = 0, start = 0\<rparr> 280 (s1\<lparr>frames := []\<rparr>)"
    by (subst fire_frame_step [where clo = "\<lparr>of_run = 0, of_layer = 0, start = 0\<rparr>"])
      (simp_all add: c1)
  show "runs (fire_frame 1 280 (animate data_A cb 0 (init_renderer 260 500)))
     = [\<lparr>layers = [[1], [1], [1]], li = 1, onDone = cb\<rparr>]"
    "timers (fire_frame 1 280 (animate data_A cb 0 (init_renderer 260 500))) = [0]"
    "length (h2Nodes (fire_frame 1 280 (animate data_A cb 0 (init_renderer 260 500)))) = 16"
    unfolding s1_def [symmetric] f2 by (simp_all add: step_done ANIM_DUR_def c1 step_lengths)
qed

text \<open>
  Claim C8 as stated fails for the input preview: after a call that set pixel 0 to
  0.5, a call without \<open>inputPixels\<close> leaves it at 0.5, where an empty array would
  set it to 0.
\<close>

theorem absent_pixels_keep_values:
  "inputPixels data_B = None
   \<and> val (pixels (run_events (init_renderer 260 500)
        [Animate data_A None 0, Animate data_B None 10]) ! 0) = 1 / 2
   \<and> val (pixels (run_events (init_renderer 260 500)
        [Animate data_A None 0, Animate (data_B\<lparr>inputPixels := Some []\<rparr>) None 10]) ! 0) = 0"
proof -
  have len: "length (pixels (animate data_A None 0 (init_renderer 260 500))) = 196"
    by (simp add: animate_fields init_fields data_A_def)
  have v: "val (pixels (animate data_A None 0 (init_renderer 260 500)) ! 0) = 1 / 2"
    by (simp add: animate_fields init_fields data_A_def jsget_def del: upt_Suc)
  have pb: "pixels (animate data_B cb t s) = pixels s" for cb t s
    by (simp add: animate_fields data_B_def)
  have a: "val (pixels (animate data_B None 10 (animate data_A None 0 (init_renderer 260 500))) ! 0) = 1 / 2"
    by (simp only: pb v)
  have b: "val (pixels (animate (data_B\<lparr>inputPixels := Some []\<rparr>) None 10
              (animate data_A None 0 (init_renderer 260 500))) ! 0) = 0"
    using len by (simp add: animate_fields(4) jsget_def del: upt_Suc)
  have n: "inputPixels data_B = None" by (simp add: data_B_def)
  show ?thesis using a b n by (simp add: run_events_def)
qed

text \<open>
  Witness for C8: targets 3 and 0.25 for the first hidden layer (3 is clamped to 1,
  node 2 reads 0), a preview of one pixel, no array for the second hidden layer, and
  the second layer of a run started with \<open>data_A\<close>.
\<close>

theorem animate_targets_witness:
  "length (h1Nodes (animate data_C None 0 (init_renderer 260 500))) = 16
   \<and> target (h1Nodes (animate data_C None 0 (init_renderer 260 500)) ! 0) = 1
   \<and> target (h1Nodes (animate data_C None 0 (init_renderer 260 500)) ! 1) = 1 / 4
   \<and> target (h1Nodes (animate data_C None 0 (init_renderer 260 500)) ! 2) = 0
   \<and> val (pixels (animate data_C None 0 (init_renderer 260 500)) ! 0) = 1 / 2
   \<and> val (pixels (animate data_C None 0 (init_renderer 260 500)) ! 1) = 0
   \<and> h2Acts data_C = None
   \<and> layers (runs (animate data_C None 0 (init_renderer 260 500)) ! 0) ! 1 = []
   \<and> inputPixels data_B = None
   \<and> pixels (animate data_B None 0 (init_renderer 260 500)) = pixels (init_renderer 260 500)
   \<and> target (h2Nodes (nextLayer 0 350
        (fire_frame 1 280 (animate data_A None 0 (init_renderer 260 500)))) ! 0) = 1"
proof -
  note th = animate_targets [of data_C None 0 "init_renderer 260 500"]
  note tb = animate_targets [of data_B None 0 "init_renderer 260 500"]
  define s2 where "s2 = fire_frame 1 280 (animate data_A None 0 (init_renderer 260 500))"
  have ea: "or_empty (h1Acts data_C) = [3, 1 / 4]" "or_empty (h2Acts data_C) = []"
    "inputPixels data_C = Some [1 / 2]" "h2Acts data_C = None" "inputPixels data_B = None"
    by (simp_all add: data_C_def data_B_def or_empty_def)
  from th have a: "length (h1Nodes (animate data_C None 0 (init_renderer 260 500))) = 16"
    by (simp add: init_fields)
  from th have b: "\<forall>i < 16. target (h1Nodes (animate data_C None 0 (init_renderer 260 500)) ! i)
      = min (jsget [3, 1 / 4] i) 1"
    by (simp add: init_fields ea)
  from th have c: "\<forall>i < 196. val (pixels (animate data_C None 0 (init_renderer 260 500)) ! i)
      = jsget [1 / 2] i"
    by (simp add: init_fields ea)
  from th have d: "layers (runs (animate data_C None 0 (init_renderer 260 500)) ! 0) ! 1 = []"
    by (simp add: init_fields ea)
  from tb have e: "pixels (animate data_B None 0 (init_renderer 260 500)) = pixels (init_renderer 260 500)"
    by (simp add: ea)
  from th have n: "\<forall>r t s'. r < length (runs s') \<and> li (runs s' ! r) < 3 \<longrightarrow>
         length (layer_nodes (li (runs s' ! r)) (nextLayer r t s'))
           = length (layer_nodes (li (runs s' ! r)) s')
         \<and> (\<forall>i < length (layer_nodes (li (runs s' ! r)) s').
               target (layer_nodes (li (runs s' ! r)) (nextLayer r t s') ! i)
                 = min (jsget (layers (runs s' ! r) ! li (runs s' ! r)) i) 1)"
    by blast
  have r2: "runs s2 = [\<lparr>layers = [[1], [1], [1]], li = 1, onDone = None\<rparr>]"
    "length (h2Nodes s2) = 16"
    unfolding s2_def by (rule after_first_layer)+
  have "0 < length (runs s2) \<and> li (runs s2 ! 0) < 3" by (simp add: r2)
  with n have "\<forall>i < length (layer_nodes (li (runs s2 ! 0)) s2).
               target (layer_nodes (li (runs s2 ! 0)) (nextLayer 0 350 s2) ! i)
                 = min (jsget (layers (runs s2 ! 0) ! li (runs s2 ! 0)) i) 1"
    by blast
  then have f: "target (h2Nodes (nextLayer 0 350 s2) ! 0) = 1"
    by (simp add: r2 layer_nodes_def jsget_def)
  have b0: "target (h1Nodes (animate data_C None 0 (init_renderer 260 500)) ! 0) = 1"
    "target (h1Nodes (animate data_C None 0 (init_renderer 260 500)) ! 1) = 1 / 4"
    "target (h1Nodes (animate data_C None 0 (init_renderer 260 500)) ! 2) = 0"
    using b by (simp_all add: jsget_def)
  have c0: "val (pixels (animate data_C None 0 (init_renderer 260 500)) ! 0) = 1 / 2"
    "val (pixels (animate data_C None 0 (init_renderer 260 500)) ! 1) = 0"
    using c by (simp_all add: jsget_def)
  show ?thesis using a b0 c0 d e f ea(4,5) unfolding s2_def by simp
qed

section \<open>Properties of the training guard\<close>

lemma guard_inv_cases:
  "guard_inv s \<longleftrightarrow>
     (inflight s = [] \<and> \<not> training s)
     \<or> (\<exists>r ph cbs. inflight s = [(r, ph, cbs)] \<and> training s \<and> safe_cbs cbs \<and> r < next_run s)"
  by (cases "inflight s"; cases "tl (inflight s)") (auto simp: guard_inv_def)

lemma guard_inv_init: "guard_inv train_init"
  by (simp add: guard_inv_def train_init_def)

lemma leave_after_callback:
  assumes "inflight t = [(r, ph, c)]" "r < next_run t" "\<not> training t"
  shows "guard_inv (leave r (cb_effect k t))"
  using assms
  by (cases k) (simp_all add: guard_inv_def leave_def train_def plain_def safe_cbs_def)

lemma catch_block_inv:
  assumes "inflight s = [(r, ph, c)]" "r < next_run s"
  shows "guard_inv (catch_block r cbs s)"
  unfolding catch_block_def
  by (rule leave_after_callback [where ph = ph and c = c]) (simp_all add: assms)

lemma guard_inv_step:
  assumes inv: "guard_inv s" and safe: "safe_event e"
  shows "guard_inv (train_step s e)"
proof -
  from inv consider (idle) "inflight s = []" "\<not> training s"
    | (busy) r ph cbs where "inflight s = [(r, ph, cbs)]" "training s" "safe_cbs cbs" "r < next_run s"
    by (auto simp: guard_inv_cases)
  then show ?thesis
  proof cases
    case idle
    then show ?thesis using inv safe
      by (cases e)
         (simp_all add: guard_inv_def train_def after_load_def load_rejected_def
            after_fit_def fit_rejected_def)
  next
    case busy
    note c = catch_block_inv [OF busy(1,4)]
    have cb: "guard_inv (catch_block r cbs (build_model s))"
      by (rule catch_block_inv [where ph = ph and c = cbs])
         (simp_all add: build_model_def busy)
    show ?thesis
    proof (cases e)
      case (Train cbs')
      then show ?thesis using inv busy by (simp add: train_def)
    next
      case (LoadOk r' out)
      show ?thesis
      proof (cases "r' = r \<and> ph = AwaitLoad")
        case True
        then show ?thesis using LoadOk busy c cb
          by (cases out) (simp_all add: after_load_def guard_inv_def build_model_def)
      next
        case False
        then have "after_load r' out s = s" using busy(1)
          by (cases ph) (auto simp: after_load_def)
        then show ?thesis using LoadOk inv by simp
      qed
    next
      case (LoadFail r')
      show ?thesis
      proof (cases "r' = r \<and> ph = AwaitLoad")
        case True
        then show ?thesis using LoadFail busy c by (simp add: load_rejected_def)
      next
        case False
        then have "load_rejected r' s = s" using busy(1)
          by (cases ph) (auto simp: load_rejected_def)
        then show ?thesis using LoadFail inv by simp
      qed
    next
      case (FitOk r' out)
      show ?thesis
      proof (cases "r' = r \<and> ph = AwaitFit")
        case True
        define s1 where "s1 = s\<lparr>trained := True, training := False, done_runs := done_runs s @ [r]\<rparr>"
        have s1: "inflight s1 = [(r, ph, cbs)]" "r < next_run s1" "\<not> training s1"
          by (simp_all add: s1_def busy)
        show ?thesis
        proof (cases out)
          case EvalRaises
          then show ?thesis using True FitOk busy c by (simp add: after_fit_def)
        next
          case Done
          show ?thesis
          proof (cases "cb_raises (cb_onDone cbs)")
            case False
            have "guard_inv (leave r (cb_effect (cb_onDone cbs) s1))"
              by (rule leave_after_callback [OF s1])
            then show ?thesis using True FitOk Done busy False
              by (simp add: after_fit_def Let_def s1_def)
          next
            case r: True
            with busy(3) have "cb_onDone cbs = Raises"
              by (cases "cb_onDone cbs") (simp_all add: safe_cbs_def)
            then have "cb_effect (cb_onDone cbs) s1 = s1" by simp
            moreover have "guard_inv (catch_block r cbs s1)"
              by (rule catch_block_inv [OF s1(1,2)])
            ultimately show ?thesis using True FitOk Done busy r
              by (simp add: after_fit_def Let_def s1_def)
          qed
        qed
      next
        case False
        then have "after_fit r' out s = s" using busy(1)
          by (cases ph) (auto simp: after_fit_def)
        then show ?thesis using FitOk inv by simp
      qed
    next
      case (FitFail r')
      show ?thesis
      proof (cases "r' = r \<and> ph = AwaitFit")
        case True
        then show ?thesis using FitFail busy c by (simp add: fit_rejected_def)
      next
        case False
        then have "fit_rejected r' s = s" using busy(1)
          by (cases ph) (auto simp: fit_rejected_def)
        then show ?thesis using FitFail inv by simp
      qed
    qed
  qed
qed

lemma guard_inv_foldl:
  "guard_inv s \<Longrightarrow> list_all safe_event es \<Longrightarrow> guard_inv (foldl train_step s es)"
  by (induction es arbitrary: s) (simp_all add: guard_inv_step)

text \<open>
  With callbacks that do not call \<open>train\<close> and then raise from \<open>onDone\<close>, the guard
  does what it is there for: at most one run is in flight, \<open>_training\<close> is set exactly
  while one is, and a call while it is set changes nothing.
\<close>

lemma guard_kept_by_safe_callbacks:
  assumes "list_all safe_event es"
  shows "length (inflight (train_trace es)) \<le> 1"
    and "training (train_trace es) \<longleftrightarrow> inflight (train_trace es) \<noteq> []"
    and "training (train_trace es) \<Longrightarrow> train cbs (train_trace es) = train_trace es"
proof -
  have "guard_inv (train_trace es)"
    unfolding train_trace_def by (rule guard_inv_foldl [OF guard_inv_init assms])
  then show "length (inflight (train_trace es)) \<le> 1"
    and "training (train_trace es) \<longleftrightarrow> inflight (train_trace es) \<noteq> []"
    by (simp_all add: guard_inv_def)
  show "training (train_trace es) \<Longrightarrow> train cbs (train_trace es) = train_trace es"
    by (simp add: train_def)
qed

text \<open>
  Claim C10 at a failing trace. A run whose \<open>onDone\<close> calls \<open>train\<close> and then raises:
  the call inside \<open>onDone\<close> passes the guard, because \<open>_training\<close> was cleared just
  before, and starts run 1; the exception then reaches the \<open>catch\<close> block of run 0,
  which clears \<open>_training\<close> a second time, now with run 1 in flight. The next call of
  \<open>train\<close> passes the guard as well: runs 1 and 2 are in flight together, and
  \<open>_loadData\<close> has been called three times.
\<close>

theorem reentrant_done_breaks_guard:
  "training (train_trace [Train reentrant, LoadOk 0 FitCalled])
   \<and> inflight (train_trace [Train reentrant, LoadOk 0 FitCalled]) = [(0, AwaitFit, reentrant)]
   \<and> training (train_trace [Train reentrant, LoadOk 0 FitCalled, FitOk 0 Done]) = False
   \<and> inflight (train_trace [Train reentrant, LoadOk 0 FitCalled, FitOk 0 Done])
        = [(1, AwaitLoad, plain)]
   \<and> inflight (train_trace [Train reentrant, LoadOk 0 FitCalled, FitOk 0 Done, Train plain])
        = [(1, AwaitLoad, plain), (2, AwaitLoad, plain)]
   \<and> loads (train_trace [Train reentrant, LoadOk 0 FitCalled, FitOk 0 Done, Train plain]) = 3"
  by (simp add: train_trace_def train_init_def train_def after_load_def build_model_def
      after_fit_def catch_block_def leave_def reentrant_def plain_def Let_def)


end
